theory Spec2Isabelle
  imports Complex_Main "HOL-Library.Word"
begin

unbundle bit_operations_syntax

section \<open>Bit packer (package bitstream)\<close>

type_synonym byte = "8 word"

text \<open>The test \<open>(b>>(7-j))&1 == 1\<close> of \<open>BytesToBits\<close>.\<close>

definition byte_bit :: "byte \<Rightarrow> nat \<Rightarrow> bool" where
  "byte_bit b j = ((drop_bit (7 - j) b) AND 1 = 1)"

text \<open>
  \<open>BytesToBits\<close>: an empty input returns nil (the empty list); otherwise a slice of
  \<open>len(data)*8\<close> booleans is allocated (all false) and filled in place, byte by byte,
  bit \<open>offset+j\<close> from bit \<open>7-j\<close> of the byte.
\<close>

definition BytesToBits :: "byte list \<Rightarrow> bool list" where
  "BytesToBits data =
     (if length data = 0 then []
      else fold (\<lambda>i bits.
                  fold (\<lambda>j bits. bits[i * 8 + j := byte_bit (data ! i) j]) [0..<8] bits)
             [0..<length data] (replicate (length data * 8) False))"

text \<open>
  \<open>BitsToBytes\<close>: an empty input returns nil; otherwise \<open>(len(bits)+7)/8\<close> zero bytes
  are allocated and every true bit \<open>i\<close> is or-ed into byte \<open>i/8\<close> at position \<open>7 - i%8\<close>.
\<close>

definition BitsToBytes :: "bool list \<Rightarrow> byte list" where
  "BitsToBytes bits =
     (if length bits = 0 then []
      else fold (\<lambda>i bytes.
                  if bits ! i
                  then bytes[i div 8 := (bytes ! (i div 8)) OR (push_bit (7 - i mod 8) 1)]
                  else bytes)
             [0..<length bits] (replicate ((length bits + 7) div 8) 0))"

section \<open>Repetition code (package ecc)\<close>

datatype ecc_error = ErrUnsupportedScheme | ErrInsufficientBits

text \<open>The interface \<open>Scheme\<close> has one implementor, \<open>Repetition3\<close>.\<close>

datatype Scheme = Repetition3

definition ECCSchemeRepetition3 :: byte where
  "ECCSchemeRepetition3 = 1"

definition GetScheme :: "byte \<Rightarrow> ecc_error + Scheme" where
  "GetScheme scheme =
     (if scheme = ECCSchemeRepetition3 then Inr Repetition3 else Inl ErrUnsupportedScheme)"

text \<open>
  \<open>Repetition3.EncodeFrame\<close>: every data bit is appended three times. The error result
  of the source is always nil, so the model always returns \<open>Inr\<close>.
\<close>

definition EncodeFrame :: "byte list \<Rightarrow> ecc_error + bool list" where
  "EncodeFrame frame =
     (let dataBits = BytesToBits frame;
          encodedBits = fold (\<lambda>bit enc. enc @ [bit, bit, bit]) dataBits []
      in Inr encodedBits)"

text \<open>The majority vote of \<open>DecodeFrame\<close>: count the ones of a triple, true iff at least 2.\<close>

definition majority :: "bool \<Rightarrow> bool \<Rightarrow> bool \<Rightarrow> bool" where
  "majority b1 b2 b3 =
     (let ones = (0::nat);
          ones = (if b1 then ones + 1 else ones);
          ones = (if b2 then ones + 1 else ones);
          ones = (if b3 then ones + 1 else ones)
      in if ones \<ge> 2 then True else False)"

text \<open>
  \<open>Repetition3.DecodeFrame\<close>: no bits, or fewer than three, is \<open>ErrInsufficientBits\<close>;
  otherwise \<open>len(bits)/3\<close> triples are decoded by majority vote (one or two trailing bits
  are never read) and packed into bytes.
\<close>

definition DecodeFrame :: "bool list \<Rightarrow> ecc_error + byte list" where
  "DecodeFrame bits =
     (if length bits = 0 then Inl ErrInsufficientBits
      else let tripleCount = length bits div 3 in
        if tripleCount = 0 then Inl ErrInsufficientBits
        else let decodedBits =
                   fold (\<lambda>i dec. let offset = i * 3 in
                           dec[i := majority (bits ! offset) (bits ! (offset + 1)) (bits ! (offset + 2))])
                     [0..<tripleCount] (replicate tripleCount False)
             in Inr (BitsToBytes decodedBits))"

fun Scheme_EncodeFrame :: "Scheme \<Rightarrow> byte list \<Rightarrow> ecc_error + bool list" where
  "Scheme_EncodeFrame Repetition3 frame = EncodeFrame frame"

fun Scheme_DecodeFrame :: "Scheme \<Rightarrow> bool list \<Rightarrow> ecc_error + byte list" where
  "Scheme_DecodeFrame Repetition3 bits = DecodeFrame bits"

section \<open>Frame protocol (package framing)\<close>

type_synonym uint32 = "32 word"

text \<open>
  \<open>crc32.ChecksumIEEE\<close> of Go's standard library: the reflected CRC-32 with polynomial
  \<open>0xEDB88320\<close>, initial value and final complement \<open>0xFFFFFFFF\<close>, computed bit by bit.
\<close>

definition crc_shift :: "uint32 \<Rightarrow> uint32" where
  "crc_shift c = (if c AND 1 = 1 then drop_bit 1 c XOR 0xEDB88320 else drop_bit 1 c)"

definition crc_update :: "byte \<Rightarrow> uint32 \<Rightarrow> uint32" where
  "crc_update b c = (crc_shift ^^ 8) (c XOR ucast b)"

definition ChecksumIEEE :: "byte list \<Rightarrow> uint32" where
  "ChecksumIEEE data = fold crc_update data 0xFFFFFFFF XOR 0xFFFFFFFF"

text \<open>\<open>binary.BigEndian.PutUint32\<close> (as the four bytes written) and \<open>Uint32\<close>.\<close>

definition PutUint32 :: "uint32 \<Rightarrow> byte list" where
  "PutUint32 v = [ucast (drop_bit 24 v), ucast (drop_bit 16 v), ucast (drop_bit 8 v), ucast v]"

definition Uint32 :: "byte list \<Rightarrow> uint32" where
  "Uint32 b = ucast (b ! 3) OR push_bit 8 (ucast (b ! 2)) OR push_bit 16 (ucast (b ! 1))
                OR push_bit 24 (ucast (b ! 0))"

text \<open>
  A Go slice expression \<open>xs[lo:hi]\<close> (every use below is guarded by a length check), and
  the builtin \<open>copy(dst[lo:], src)\<close>, which overwrites \<open>min(len(dst) - lo, len(src))\<close>
  elements of \<open>dst\<close> from index \<open>lo\<close>.
\<close>

definition subslice :: "'a list \<Rightarrow> nat \<Rightarrow> nat \<Rightarrow> 'a list" where
  "subslice xs lo hi = take (hi - lo) (drop lo xs)"

definition copy_at :: "'a list \<Rightarrow> nat \<Rightarrow> 'a list \<Rightarrow> 'a list" where
  "copy_at dst lo src =
     (let n = min (length dst - lo) (length src)
      in take lo dst @ take n src @ drop (lo + n) dst)"

text \<open>A Go string is a byte sequence; the magic is the four bytes of \<open>EMG0\<close>.\<close>

definition Magic :: "byte list" where
  "Magic = map of_char ''EMG0''"

definition HeaderSize :: nat where
  "HeaderSize = 16"

definition CurrentVersion :: byte where
  "CurrentVersion = 0x01"

datatype frame_error = ErrInvalidMagic | ErrInvalidLength | ErrCRCMismatch | ErrFrameTooShort

record Header =
  hMagic :: "byte list"
  Version :: byte
  ECCScheme :: byte
  Reserved :: "byte list"
  PayloadLength :: uint32
  PayloadCRC32 :: uint32

text \<open>
  \<open>BuildFrame\<close>: a zeroed 16-byte header receives the magic, the version, the scheme id,
  the payload length (converted to \<open>uint32\<close>, so reduced modulo \<open>2^32\<close>) and the CRC-32 of
  the payload; the frame is the header followed by the message. The error result is
  always nil.
\<close>

definition BuildFrame :: "byte list \<Rightarrow> byte \<Rightarrow> frame_error + byte list" where
  "BuildFrame message eccScheme =
     (let crc = ChecksumIEEE message;
          header = replicate HeaderSize 0;
          header = copy_at (take 4 header) 0 Magic @ drop 4 header;
          header = header[4 := CurrentVersion];
          header = header[5 := eccScheme];
          header = take 8 header @ copy_at (subslice header 8 12) 0 (PutUint32 (of_nat (length message)))
                     @ drop 12 header;
          header = take 12 header @ copy_at (subslice header 12 16) 0 (PutUint32 crc)
                     @ drop 16 header;
          frame = replicate (HeaderSize + length message) 0;
          frame = copy_at (take HeaderSize frame) 0 header @ drop HeaderSize frame;
          frame = copy_at frame HeaderSize message
      in Inr frame)"

text \<open>
  \<open>ParseFrame\<close>: the four checks in the order of the source. \<open>int(PayloadLength)\<close> is
  exact (Go's \<open>int\<close> has 64 bits), so the length test is on natural numbers.
\<close>

definition ParseFrame :: "byte list \<Rightarrow> frame_error + (Header \<times> byte list)" where
  "ParseFrame frame =
     (if length frame < HeaderSize then Inl ErrFrameTooShort
      else let magic = subslice frame 0 4 in
        if magic \<noteq> Magic then Inl ErrInvalidMagic
        else let header = \<lparr>hMagic = magic, Version = frame ! 4, ECCScheme = frame ! 5,
                             Reserved = [0, 0], PayloadLength = 0, PayloadCRC32 = 0\<rparr>;
                 header = header\<lparr>Reserved := copy_at (Reserved header) 0 (subslice frame 6 8)\<rparr>;
                 header = header\<lparr>PayloadLength := Uint32 (subslice frame 8 12)\<rparr>;
                 header = header\<lparr>PayloadCRC32 := Uint32 (subslice frame 12 16)\<rparr>
             in if length frame < HeaderSize + unat (PayloadLength header) then Inl ErrInvalidLength
                else let payload = subslice frame HeaderSize (HeaderSize + unat (PayloadLength header));
                         calculatedCRC = ChecksumIEEE payload
                     in if calculatedCRC \<noteq> PayloadCRC32 header then Inl ErrCRCMismatch
                        else Inr (header, payload))"

text \<open>
  The wire format's reading of a four-byte field, written from the specification: the
  big-endian unsigned number held by bytes \<open>k\<close> to \<open>k+3\<close> of a frame.
\<close>

definition be_uint32 :: "byte list \<Rightarrow> nat \<Rightarrow> nat" where
  "be_uint32 f k = unat (f ! k) * 2 ^ 24 + unat (f ! (k + 1)) * 2 ^ 16
                     + unat (f ! (k + 2)) * 2 ^ 8 + unat (f ! (k + 3))"

section \<open>Block transform (package dct)\<close>

text \<open>
  \<open>float64\<close> is modelled by the real numbers: sums, products, square roots and cosines are
  exact. \<open>cosTable[i][j]\<close> is filled once by \<open>init\<close>; a \<open>[64]float64\<close> array is a list of
  64 reals.
\<close>

definition cosTable :: "nat \<Rightarrow> nat \<Rightarrow> real" where
  "cosTable i j = cos (real (2 * i + 1) * real j * pi / 16.0)"

text \<open>The normalisation factor \<open>c\<close> chosen inside each loop body.\<close>

definition norm_c :: "nat \<Rightarrow> real" where
  "norm_c freq = (let c = sqrt (2.0 / 8.0) in if freq = 0 then sqrt (1.0 / 8.0) else c)"

text \<open>
  \<open>DCT8x8(src, dst)\<close>: the row pass fills the local array \<open>temp\<close> (zero-initialised), the
  column pass writes \<open>dst\<close> in place; the result is the final \<open>dst\<close>. Each inner sum starts
  at \<open>0.0\<close> and adds its eight terms from left to right.
\<close>

definition DCT8x8 :: "real list \<Rightarrow> real list \<Rightarrow> real list" where
  "DCT8x8 src dst =
     (let temp = fold (\<lambda>row temp.
                   fold (\<lambda>freq temp.
                     let sum = fold (\<lambda>col sum. sum + src ! (row * 8 + col) * cosTable col freq)
                                 [0..<8] 0.0;
                         c = norm_c freq
                     in temp[row * 8 + freq := c * sum]) [0..<8] temp)
                 [0..<8] (replicate 64 0)
      in fold (\<lambda>colFreq dst.
           fold (\<lambda>rowFreq dst.
             let sum = fold (\<lambda>row sum. sum + temp ! (row * 8 + colFreq) * cosTable row rowFreq)
                         [0..<8] 0.0;
                 c = norm_c rowFreq
             in dst[rowFreq * 8 + colFreq := c * sum]) [0..<8] dst)
         [0..<8] dst)"

text \<open>\<open>IDCT8x8(src, dst)\<close>: the column pass into \<open>temp\<close>, then the row pass into \<open>dst\<close>.\<close>

definition IDCT8x8 :: "real list \<Rightarrow> real list \<Rightarrow> real list" where
  "IDCT8x8 src dst =
     (let temp = fold (\<lambda>colFreq temp.
                   fold (\<lambda>row temp.
                     let sum = fold (\<lambda>rowFreq sum.
                                   sum + norm_c rowFreq * src ! (rowFreq * 8 + colFreq)
                                           * cosTable row rowFreq)
                                 [0..<8] 0.0
                     in temp[row * 8 + colFreq := sum]) [0..<8] temp)
                 [0..<8] (replicate 64 0)
      in fold (\<lambda>row dst.
           fold (\<lambda>col dst.
             let sum = fold (\<lambda>colFreq sum.
                           sum + norm_c colFreq * temp ! (row * 8 + colFreq) * cosTable col colFreq)
                         [0..<8] 0.0
             in dst[row * 8 + col := sum]) [0..<8] dst)
         [0..<8] dst)"

text \<open>
  The reference formula of the specification, written from its words: the direct double
  sum with \<open>C(0) = sqrt(1/8)\<close> and \<open>C(k>0) = sqrt(2/8)\<close>.
\<close>

definition spec_C :: "nat \<Rightarrow> real" where
  "spec_C k = (if k = 0 then sqrt (1 / 8) else sqrt (2 / 8))"

definition spec_DCT :: "(nat \<Rightarrow> nat \<Rightarrow> real) \<Rightarrow> nat \<Rightarrow> nat \<Rightarrow> real" where
  "spec_DCT x u v =
     spec_C u * spec_C v *
       (\<Sum>row = 0..<8. \<Sum>col = 0..<8.
          x row col * cos (real (2 * row + 1) * real u * pi / 16)
                    * cos (real (2 * col + 1) * real v * pi / 16))"

section \<open>Sample planes and capacity (packages ycbcr, imgutil)\<close>

text \<open>
  Image decoding, colour conversion and re-encoding are external collaborators. The
  engine below starts from the luminance plane that \<open>ImageToYCbCrPlanes\<close> delivers for a
  decoded image; image dimensions are never negative, so they are natural numbers and
  Go's \<open>/\<close> is \<open>div\<close>.
\<close>

record Plane =
  Pix :: "real list"
  Width :: nat
  Height :: nat
  Stride :: nat

definition CapacityBits :: "nat \<Rightarrow> nat \<Rightarrow> nat" where
  "CapacityBits width height =
     (let blocksAcross = width div 8;
          blocksDown = height div 8
      in blocksAcross * blocksDown)"

section \<open>Binary64 rounding\<close>

text \<open>
  The coefficient mutation of the embedding engine adds, subtracts and halves \<open>float64\<close>
  values, and whether an embedded bit can be read back depends on how those results are
  rounded. That step is therefore modelled in binary64: a \<open>float64\<close> value is the real
  number it denotes, and every arithmetic operation returns the exact result rounded to
  the nearest binary64 value, ties going to the even significand (IEEE 754
  round-to-nearest-even, the mode Go uses). Each operation is rounded on its own; the
  fusing of a multiplication with an addition that Go permits on some targets is not
  modelled.

  \<open>ulp64 x\<close> is the spacing of the binary64 values around \<open>x\<close>: \<open>2^(e-52)\<close> for
  \<open>2^e \<le> |x| < 2^(e+1)\<close> and \<open>2^-1074\<close> in the subnormal range below \<open>2^-1022\<close>.
  Infinities and NaN are not values of the model, and a result of magnitude \<open>2^1024\<close>
  or more, which overflows in binary64, is rounded like any other; the statements about
  the mutation are therefore restricted to magnitudes of at most \<open>2^1000\<close>, where none
  of its operations can overflow.
\<close>

definition round_half_even :: "real \<Rightarrow> int" where
  "round_half_even r =
     (let f = \<lfloor>r\<rfloor>;
          d = r - of_int f
      in if d < 1 / 2 then f else if d > 1 / 2 then f + 1 else if even f then f else f + 1)"

definition ulp64 :: "real \<Rightarrow> real" where
  "ulp64 x = 2 powr (of_int (max \<lfloor>log 2 \<bar>x\<bar>\<rfloor> (- 1022)) - 52)"

definition round64 :: "real \<Rightarrow> real" where
  "round64 x =
     (if x = 0 then 0
      else sgn x * (ulp64 x * of_int (round_half_even (\<bar>x\<bar> / ulp64 x))))"

section \<open>Embedding engine (package emganography)\<close>

record DCTConfig =
  ECC :: byte
  Delta :: real
  MinGap :: real
  UseAllBlocks :: bool
  OutputFormat :: string

record EmbedOptions =
  Config :: DCTConfig
  JPEGQuality :: int

definition DefaultDCTConfig :: DCTConfig where
  "DefaultDCTConfig =
     \<lparr>ECC = ECCSchemeRepetition3, Delta = 10.0, MinGap = 5.0, UseAllBlocks = True,
      OutputFormat = []\<rparr>"

definition DefaultEmbedOptions :: EmbedOptions where
  "DefaultEmbedOptions = \<lparr>Config = DefaultDCTConfig, JPEGQuality = 90\<rparr>"

text \<open>
  A loop that can hit an index out of range (a Go run-time panic) is a fold that stops
  with \<open>None\<close>.
\<close>

fun fold_opt :: "('a \<Rightarrow> 's \<Rightarrow> 's option) \<Rightarrow> 'a list \<Rightarrow> 's \<Rightarrow> 's option" where
  "fold_opt f [] s = Some s"
| "fold_opt f (x # xs) s = (case f x s of None \<Rightarrow> None | Some s' \<Rightarrow> fold_opt f xs s')"

text \<open>
  The 64 sample positions of block \<open>(by, bx)\<close> are \<open>Pix[(by*8+y)*Stride + bx*8+x]\<close>;
  reading the block panics unless all of them exist.
\<close>

definition block_in_range :: "real list \<Rightarrow> nat \<Rightarrow> nat \<Rightarrow> nat \<Rightarrow> bool" where
  "block_in_range pix stride by bx =
     list_all (\<lambda>k. (by * 8 + k div 8) * stride + (bx * 8 + k mod 8) < length pix) [0..<64]"

text \<open>The loop "extract 8x8 block and center values", writing the array \<open>block\<close> in place.\<close>

definition load_block :: "real list \<Rightarrow> nat \<Rightarrow> nat \<Rightarrow> nat \<Rightarrow> real list \<Rightarrow> real list" where
  "load_block pix stride by bx block =
     fold (\<lambda>y block.
       fold (\<lambda>x block.
         let srcY = by * 8 + y;
             srcX = bx * 8 + x
         in block[y * 8 + x := pix ! (srcY * stride + srcX) - 128.0]) [0..<8] block)
     [0..<8] block"

text \<open>
  The coefficient mutation of \<open>embedBitsIntoDCT\<close> for one bit. Each of its \<open>float64\<close>
  operations is rounded: the sum and its half, the sum \<open>MinGap + Delta\<close>, its half, and the
  final sum and difference.
\<close>

definition embed_coeffs :: "DCTConfig \<Rightarrow> bool \<Rightarrow> real list \<Rightarrow> real list" where
  "embed_coeffs config bitv dctBlock =
     (let coeff22 = dctBlock ! (2 * 8 + 2);
          coeff23 = dctBlock ! (2 * 8 + 3);
          midpoint = round64 (round64 (coeff22 + coeff23) / 2.0);
          requiredGap = round64 (MinGap config + Delta config)
      in if bitv
         then (dctBlock[2 * 8 + 2 := round64 (midpoint + round64 (requiredGap / 2.0))])
                [2 * 8 + 3 := round64 (midpoint - round64 (requiredGap / 2.0))]
         else (dctBlock[2 * 8 + 2 := round64 (midpoint - round64 (requiredGap / 2.0))])
                [2 * 8 + 3 := round64 (midpoint + round64 (requiredGap / 2.0))])"

text \<open>The write-back loop: add 128, clamp to \<open>[0, 255]\<close>, store into the plane.\<close>

definition clamp_sample :: "real \<Rightarrow> real" where
  "clamp_sample v =
     (let val = (if v < 0 then 0 else v)
      in if val > 255 then 255 else val)"

definition store_block :: "real list \<Rightarrow> nat \<Rightarrow> nat \<Rightarrow> nat \<Rightarrow> real list \<Rightarrow> real list" where
  "store_block pix stride by bx block =
     fold (\<lambda>y pix.
       fold (\<lambda>x pix.
         let srcY = by * 8 + y;
             srcX = bx * 8 + x;
             val = block ! (y * 8 + x) + 128.0
         in pix[srcY * stride + srcX := clamp_sample val]) [0..<8] pix)
     [0..<8] pix"

text \<open>
  One iteration of the block loop of \<open>embedBitsIntoDCT\<close>. The state is the sample array,
  \<open>bitIdx\<close> and the two scratch arrays \<open>block\<close> and \<open>dctBlock\<close>, which live across
  iterations.
\<close>

definition embed_block ::
  "DCTConfig \<Rightarrow> bool list \<Rightarrow> nat \<Rightarrow> nat \<Rightarrow> nat \<Rightarrow>
   real list \<times> nat \<times> real list \<times> real list \<Rightarrow>
   (real list \<times> nat \<times> real list \<times> real list) option" where
  "embed_block config bits stride by bx st =
     (case st of (pix, bitIdx, block, dctBlock) \<Rightarrow>
        if \<not> block_in_range pix stride by bx then None
        else let block = load_block pix stride by bx block;
                 dctBlock = DCT8x8 block dctBlock;
                 (dctBlock, bitIdx) =
                   (if bitIdx < length bits
                    then (embed_coeffs config (bits ! bitIdx) dctBlock, bitIdx + 1)
                    else (dctBlock, bitIdx));
                 block = IDCT8x8 dctBlock block;
                 pix = store_block pix stride by bx block
             in Some (pix, bitIdx, block, dctBlock))"

text \<open>
  \<open>embedBitsIntoDCT\<close> mutates the plane in place; the model returns the plane it leaves,
  or \<open>None\<close> for a panic. Its error result is always nil.
\<close>

definition embedBitsIntoDCT :: "Plane \<Rightarrow> bool list \<Rightarrow> DCTConfig \<Rightarrow> Plane option" where
  "embedBitsIntoDCT yPlane bits config =
     (let blocksAcross = Width yPlane div 8;
          blocksDown = Height yPlane div 8
      in case fold_opt (\<lambda>by. fold_opt (embed_block config bits (Stride yPlane) by) [0..<blocksAcross])
                [0..<blocksDown] (Pix yPlane, 0, replicate 64 0, replicate 64 0) of
           None \<Rightarrow> None
         | Some (pix, bitIdx, block, dctBlock) \<Rightarrow> Some (yPlane\<lparr>Pix := pix\<rparr>))"

text \<open>The extraction rule: the comparison \<open>coeff22 > coeff23\<close>.\<close>

definition extract_bit :: "real list \<Rightarrow> bool" where
  "extract_bit dctBlock =
     (let coeff22 = dctBlock ! (2 * 8 + 2);
          coeff23 = dctBlock ! (2 * 8 + 3)
      in coeff22 > coeff23)"

text \<open>
  The two loops of \<open>extractBitsFromDCT\<close>, each with the exit test \<open>len(bits) < maxBits\<close>
  in its condition. The state is \<open>bits\<close> and the two scratch arrays.
\<close>

fun extract_cols ::
  "Plane \<Rightarrow> nat \<Rightarrow> nat \<Rightarrow> nat list \<Rightarrow> bool list \<times> real list \<times> real list \<Rightarrow>
   (bool list \<times> real list \<times> real list) option" where
  "extract_cols yPlane maxBits by [] st = Some st"
| "extract_cols yPlane maxBits by (bx # rest) (bits, block, dctBlock) =
     (if length bits < maxBits
      then if \<not> block_in_range (Pix yPlane) (Stride yPlane) by bx then None
           else let block = load_block (Pix yPlane) (Stride yPlane) by bx block;
                    dctBlock = DCT8x8 block dctBlock;
                    bit = extract_bit dctBlock
                in extract_cols yPlane maxBits by rest (bits @ [bit], block, dctBlock)
      else Some (bits, block, dctBlock))"

fun extract_rows ::
  "Plane \<Rightarrow> nat \<Rightarrow> nat list \<Rightarrow> bool list \<times> real list \<times> real list \<Rightarrow>
   (bool list \<times> real list \<times> real list) option" where
  "extract_rows yPlane maxBits [] st = Some st"
| "extract_rows yPlane maxBits (by # rest) (bits, block, dctBlock) =
     (if length bits < maxBits
      then case extract_cols yPlane maxBits by [0..<Width yPlane div 8] (bits, block, dctBlock) of
             None \<Rightarrow> None
           | Some st \<Rightarrow> extract_rows yPlane maxBits rest st
      else Some (bits, block, dctBlock))"

definition extractBitsFromDCT :: "Plane \<Rightarrow> nat \<Rightarrow> bool list option" where
  "extractBitsFromDCT yPlane maxBits =
     (let blocksDown = Height yPlane div 8
      in case extract_rows yPlane maxBits [0..<blocksDown] ([], replicate 64 0, replicate 64 0) of
           None \<Rightarrow> None
         | Some (bits, block, dctBlock) \<Rightarrow> Some bits)"

subsection \<open>EmbedMessageDCT\<close>

datatype embed_error =
    EmbedErrBuildFrame frame_error
  | EmbedErrGetScheme ecc_error
  | EmbedErrECCEncode ecc_error
  | ErrMessageTooLong

text \<open>
  \<open>EmbedMessageDCT\<close> from the luminance plane on: build the frame, get the scheme named
  by the options (nil options are the defaults), encode, check the capacity, embed. The
  result is \<open>None\<close> for a panic, else the error or success together with the luminance
  plane as the call leaves it (on success the plane handed to \<open>YCbCrPlanesToImage\<close>).
\<close>

definition EmbedMessageDCT ::
  "Plane \<Rightarrow> byte list \<Rightarrow> EmbedOptions option \<Rightarrow> ((embed_error + unit) \<times> Plane) option" where
  "EmbedMessageDCT yPlane message opts =
     (let opts = (case opts of None \<Rightarrow> DefaultEmbedOptions | Some given \<Rightarrow> given) in
      case BuildFrame message (ECC (Config opts)) of
        Inl err \<Rightarrow> Some (Inl (EmbedErrBuildFrame err), yPlane)
      | Inr frame \<Rightarrow>
      case GetScheme (ECC (Config opts)) of
        Inl err \<Rightarrow> Some (Inl (EmbedErrGetScheme err), yPlane)
      | Inr eccScheme \<Rightarrow>
      case Scheme_EncodeFrame eccScheme frame of
        Inl err \<Rightarrow> Some (Inl (EmbedErrECCEncode err), yPlane)
      | Inr encodedBits \<Rightarrow>
      let capacityBits = CapacityBits (Width yPlane) (Height yPlane) in
      if length encodedBits > capacityBits then Some (Inl ErrMessageTooLong, yPlane)
      else case embedBitsIntoDCT yPlane encodedBits (Config opts) of
             None \<Rightarrow> None
           | Some yPlane' \<Rightarrow> Some (Inr (), yPlane'))"

subsection \<open>ExtractMessageDCT\<close>

datatype extract_error =
    ExtractErrGetScheme ecc_error
  | ExtractErrDecodeHeader ecc_error
  | ExtractErrDecode ecc_error
  | ExtractErrInsufficientHeader
  | ExtractErrCRCMismatch
  | ErrFrameCorrupt frame_error
  | ExtractErrUnsupportedScheme byte
  | ExtractErrUnsupportedSchemeInFrame byte
  | ExtractErrDecodeCorrectScheme ecc_error
  | ExtractErrInvalidPayloadLength uint32
  | ExtractErrCapacity nat nat
  | ExtractErrDecodeFullFrame ecc_error

text \<open>How both parse sites report a \<open>ParseFrame\<close> error.\<close>

definition parse_error :: "frame_error \<Rightarrow> extract_error" where
  "parse_error err = (if err = ErrCRCMismatch then ExtractErrCRCMismatch else ErrFrameCorrupt err)"

text \<open>
  The parse-and-verify-scheme block that ends both paths of \<open>ExtractMessageDCT\<close>; the two
  copies differ only in the error for an unsupported scheme, the parameter \<open>unsupported\<close>.
\<close>

definition parse_extracted ::
  "(byte \<Rightarrow> extract_error) \<Rightarrow> bool list \<Rightarrow> byte list \<Rightarrow> extract_error + byte list" where
  "parse_extracted unsupported extractedBits frameBytes =
     (case ParseFrame frameBytes of
        Inl err \<Rightarrow> Inl (parse_error err)
      | Inr (header, payload) \<Rightarrow>
          if ECCScheme header \<noteq> ECCSchemeRepetition3
          then case GetScheme (ECCScheme header) of
                 Inl err \<Rightarrow> Inl (unsupported (ECCScheme header))
               | Inr eccScheme \<Rightarrow>
                   (case Scheme_DecodeFrame eccScheme extractedBits of
                      Inl err \<Rightarrow> Inl (ExtractErrDecodeCorrectScheme err)
                    | Inr frameBytes \<Rightarrow>
                        (case ParseFrame frameBytes of
                           Inl err \<Rightarrow> Inl (parse_error err)
                         | Inr (header', payload') \<Rightarrow> Inr payload'))
          else Inr payload)"

text \<open>The path taken when the magic of the header probe does not match: extract all bits.\<close>

definition extract_all ::
  "Plane \<Rightarrow> Scheme \<Rightarrow> nat \<Rightarrow> (extract_error + byte list) option" where
  "extract_all yPlane eccScheme capacityBits =
     (case extractBitsFromDCT yPlane capacityBits of
        None \<Rightarrow> None
      | Some extractedBits \<Rightarrow>
          (case Scheme_DecodeFrame eccScheme extractedBits of
             Inl err \<Rightarrow> Some (Inl (ExtractErrDecode err))
           | Inr frameBytes \<Rightarrow>
               Some (parse_extracted ExtractErrUnsupportedScheme extractedBits frameBytes)))"

text \<open>
  The path taken when the magic matches: read the payload length from bytes 8 to 11,
  reject a length above 1000000, check the capacity, extract the whole frame and parse.
\<close>

definition extract_frame ::
  "Plane \<Rightarrow> Scheme \<Rightarrow> nat \<Rightarrow> byte list \<Rightarrow> (extract_error + byte list) option" where
  "extract_frame yPlane eccScheme capacityBits frameBytes =
     (let payloadLength = push_bit 24 (ucast (frameBytes ! 8)) OR push_bit 16 (ucast (frameBytes ! 9))
                            OR push_bit 8 (ucast (frameBytes ! 10)) OR ucast (frameBytes ! 11) :: uint32
      in if payloadLength > 1000000 then Some (Inl (ExtractErrInvalidPayloadLength payloadLength))
         else let totalFrameBytes = HeaderSize + unat payloadLength;
                  totalFrameBits = totalFrameBytes * 8 * 3
              in if totalFrameBits > capacityBits
                 then Some (Inl (ExtractErrCapacity totalFrameBits capacityBits))
                 else case extractBitsFromDCT yPlane totalFrameBits of
                        None \<Rightarrow> None
                      | Some extractedBits \<Rightarrow>
                          (case Scheme_DecodeFrame eccScheme extractedBits of
                             Inl err \<Rightarrow> Some (Inl (ExtractErrDecodeFullFrame err))
                           | Inr frameBytes \<Rightarrow>
                               Some (parse_extracted ExtractErrUnsupportedSchemeInFrame
                                       extractedBits frameBytes)))"

text \<open>
  Everything after the header probe has been decoded: a second, full extraction when
  fewer than 16 bytes came out, the length test, and the magic test that selects one of
  the two paths above.
\<close>

definition extract_after_probe ::
  "Plane \<Rightarrow> Scheme \<Rightarrow> nat \<Rightarrow> byte list \<Rightarrow> (extract_error + byte list) option" where
  "extract_after_probe yPlane eccScheme capacityBits frameBytes =
     (let retried =
            (if length frameBytes < HeaderSize
             then case extractBitsFromDCT yPlane capacityBits of
                    None \<Rightarrow> None
                  | Some extractedBits \<Rightarrow>
                      (case Scheme_DecodeFrame eccScheme extractedBits of
                         Inl err \<Rightarrow> Some (Inl (ExtractErrDecode err))
                       | Inr frameBytes' \<Rightarrow> Some (Inr frameBytes'))
             else Some (Inr frameBytes))
      in case retried of
           None \<Rightarrow> None
         | Some (Inl err) \<Rightarrow> Some (Inl err)
         | Some (Inr frameBytes) \<Rightarrow>
             if length frameBytes < HeaderSize then Some (Inl ExtractErrInsufficientHeader)
             else let magic = subslice frameBytes 0 4 in
               if magic \<noteq> Magic then extract_all yPlane eccScheme capacityBits
               else extract_frame yPlane eccScheme capacityBits frameBytes)"

text \<open>
  \<open>ExtractMessageDCT\<close> from the luminance plane on; \<open>None\<close> is a panic. The header probe
  extracts \<open>min(384, capacityBits)\<close> bits.
\<close>

definition ExtractMessageDCT :: "Plane \<Rightarrow> (extract_error + byte list) option" where
  "ExtractMessageDCT yPlane =
     (case GetScheme ECCSchemeRepetition3 of
        Inl err \<Rightarrow> Some (Inl (ExtractErrGetScheme err))
      | Inr eccScheme \<Rightarrow>
          let capacityBits = CapacityBits (Width yPlane) (Height yPlane);
              minBitsForHeader = HeaderSize * 8 * 3;
              extractBits = (if capacityBits < minBitsForHeader then capacityBits
                             else minBitsForHeader)
          in case extractBitsFromDCT yPlane extractBits of
               None \<Rightarrow> None
             | Some extractedBits \<Rightarrow>
                 (case Scheme_DecodeFrame eccScheme extractedBits of
                    Inl err \<Rightarrow> Some (Inl (ExtractErrDecodeHeader err))
                  | Inr frameBytes \<Rightarrow>
                      extract_after_probe yPlane eccScheme capacityBits frameBytes))"

subsection \<open>GetCapacityInfoFromData\<close>

record CapacityInfo =
  ciWidth :: int
  ciHeight :: int
  BlocksAcross :: int
  BlocksDown :: int
  ciCapacityBits :: int
  MaxPayloadBytes :: int
  MaxUTF8Chars :: int

datatype capacity_error = CapacityErrGetScheme ecc_error | CapacityErrEncode ecc_error

text \<open>Go's conversion \<open>int(x)\<close> of a float: truncation towards zero.\<close>

definition int_of_float :: "real \<Rightarrow> int" where
  "int_of_float x = (if x \<ge> 0 then \<lfloor>x\<rfloor> else \<lceil>x\<rceil>)"

text \<open>
  \<open>GetCapacityInfoFromData\<close> from the luminance plane on. The expansion factor comes from
  encoding a dummy frame of 17 zero bytes; an integer division by zero is a panic
  (\<open>None\<close>).
\<close>

definition GetCapacityInfoFromData ::
  "Plane \<Rightarrow> byte \<Rightarrow> (capacity_error + CapacityInfo) option" where
  "GetCapacityInfoFromData yPlane eccScheme =
     (let width = int (Width yPlane);
          height = int (Height yPlane);
          blocksAcross = width div 8;
          blocksDown = height div 8;
          capacityBits = blocksAcross * blocksDown
      in case GetScheme eccScheme of
           Inl err \<Rightarrow> Some (Inl (CapacityErrGetScheme err))
         | Inr ecc \<Rightarrow>
             let testFrame = replicate (HeaderSize + 1) (0 :: byte) in
             case Scheme_EncodeFrame ecc testFrame of
               Inl err \<Rightarrow> Some (Inl (CapacityErrEncode err))
             | Inr encodedBits \<Rightarrow>
                 if length testFrame * 8 = 0 then None
                 else let expansionFactor = int (length encodedBits) div int (length testFrame * 8) in
                   if 8 * expansionFactor = 0 then None
                   else let maxFrameBytes = capacityBits div (8 * expansionFactor);
                            maxPayloadBytes = maxFrameBytes - int HeaderSize;
                            maxPayloadBytes = (if maxPayloadBytes < 0 then 0 else maxPayloadBytes);
                            maxUTF8Chars = int_of_float (real_of_int maxPayloadBytes / 1.5)
                        in Some (Inr \<lparr>ciWidth = width, ciHeight = height,
                                       BlocksAcross = blocksAcross, BlocksDown = blocksDown,
                                       ciCapacityBits = capacityBits,
                                       MaxPayloadBytes = maxPayloadBytes,
                                       MaxUTF8Chars = maxUTF8Chars\<rparr>))"

section \<open>The blocks of a plane in loop order\<close>






section \<open>A synthetic luminance plane\<close>

text \<open>
  A plane one block wide that stores one bit per block, used to run the extraction path
  on concrete samples: the block of a true bit is mid-grey (128) with a single white
  sample (255) in its top-left corner, the block of a false bit is mid-grey throughout;
  \<open>n\<close> blocks in all, the blocks after the given bits mid-grey. Stride equals width and
  the sample array has \<open>width * height\<close> entries, as \<open>ImageToYCbCrPlanes\<close> produces them.
\<close>

definition impulse_block :: "bool \<Rightarrow> real list" where
  "impulse_block b = (if b then 255 else 128) # replicate 63 128"

definition probe_plane :: "bool list \<Rightarrow> nat \<Rightarrow> Plane" where
  "probe_plane bs n =
     \<lparr>Pix = concat (map impulse_block bs) @ replicate (64 * (n - length bs)) 128,
      Width = 8, Height = 8 * n, Stride = 8\<rparr>"


section \<open>Verification: bit packer\<close>

text \<open>Filling an array by nested loops is one pass over the index pairs.\<close>

lemma fold_nested_product:
  "fold (\<lambda>i. fold (\<lambda>j. F i j) ys) xs a = fold (\<lambda>(i, j). F i j) (List.product xs ys) a"
proof (induction xs arbitrary: a)
  case Nil
  show ?case by simp
next
  case (Cons x xs)
  have "fold (\<lambda>(i, j). F i j) (map (Pair x) ys) a = fold (F x) ys a"
    by (simp add: fold_map comp_def)
  with Cons show ?case by simp
qed

lemma fold_update_length [simp]:
  "length (fold (\<lambda>x a. a[g x := h x]) xs a) = length a"
  by (induction xs arbitrary: a) auto

lemma fold_update_other:
  "k \<notin> g ` set xs \<Longrightarrow> fold (\<lambda>x a. a[g x := h x]) xs a ! k = a ! k"
  by (induction xs arbitrary: a) auto

lemma fold_update_nth:
  "distinct (map g xs) \<Longrightarrow> x \<in> set xs \<Longrightarrow> g x < length a \<Longrightarrow>
   fold (\<lambda>x a. a[g x := h x]) xs a ! (g x) = h x"
proof (induction xs arbitrary: a)
  case Nil
  then show ?case by simp
next
  case (Cons y ys)
  show ?case
  proof (cases "x = y")
    case True
    with Cons.prems have "g y \<notin> g ` set ys" by auto
    then have "fold (\<lambda>x a. a[g x := h x]) ys (a[g y := h y]) ! (g y) = (a[g y := h y]) ! (g y)"
      by (rule fold_update_other)
    with True Cons.prems show ?thesis by simp
  next
    case False
    with Cons.prems have "x \<in> set ys" "distinct (map g ys)" by auto
    then show ?thesis using Cons.IH [of "a[g y := h y]"] Cons.prems(3) by simp
  qed
qed

lemma byte_bit_iff: "byte_bit b j = bit b (7 - j)"
  by (simp add: byte_bit_def bit_iff_odd_drop_bit and_one_eq odd_iff_mod_2_eq_one)

lemma inj_on_idx8: "inj_on (\<lambda>(i, j). i * 8 + j) ({0..<n} \<times> {0..<8::nat})"
proof (rule inj_onI)
  fix p q :: "nat \<times> nat"
  assume p: "p \<in> {0..<n} \<times> {0..<8}" and q: "q \<in> {0..<n} \<times> {0..<8}"
    and eq: "(case p of (i, j) \<Rightarrow> i * 8 + j) = (case q of (i, j) \<Rightarrow> i * 8 + j)"
  obtain i j where pq: "p = (i, j)" by (cases p)
  obtain i' j' where qq: "q = (i', j')" by (cases q)
  from p q eq pq qq have "j < 8" "j' < 8" "i * 8 + j = i' * 8 + j'" by auto
  then have "i = i' \<and> j = j'" by arith
  with pq qq show "p = q" by simp
qed

lemma distinct_idx8: "distinct (map (\<lambda>(i, j). i * 8 + j) (List.product [0..<n] [0..<8]))"
  using inj_on_idx8 [of n] by (simp add: distinct_map distinct_product)

lemma BytesToBits_length: "length (BytesToBits data) = 8 * length data"
  by (simp add: BytesToBits_def fold_nested_product case_prod_unfold)

lemma BytesToBits_nth:
  assumes "i < length data" "j < 8"
  shows "BytesToBits data ! (i * 8 + j) = bit (data ! i) (7 - j)"
proof -
  let ?g = "\<lambda>(i, j). i * 8 + j" and ?h = "\<lambda>(i, j). byte_bit (data ! i) j"
  have "(i, j) \<in> set (List.product [0..<length data] [0..<8])"
    using assms by simp
  moreover have "?g (i, j) < length (replicate (length data * 8) False)"
    using assms by simp
  ultimately have "fold (\<lambda>x a. a[?g x := ?h x]) (List.product [0..<length data] [0..<8])
      (replicate (length data * 8) False) ! (?g (i, j)) = ?h (i, j)"
    using distinct_idx8 [of "length data"] by (rule fold_update_nth [rotated])
  then show ?thesis
    using assms by (auto simp: BytesToBits_def fold_nested_product case_prod_unfold byte_bit_iff)
qed

lemma idx_split:
  fixes m k n :: nat
  assumes "m < 8"
  shows "(k * 8 + (7 - m) = n) \<longleftrightarrow> (n div 8 = k \<and> 7 - n mod 8 = m)"
proof
  assume e: "k * 8 + (7 - m) = n"
  have "7 - m < 8" by simp
  then have "(k * 8 + (7 - m)) div 8 = k" "(k * 8 + (7 - m)) mod 8 = 7 - m" by simp_all
  with e assms show "n div 8 = k \<and> 7 - n mod 8 = m" by auto
next
  assume a: "n div 8 = k \<and> 7 - n mod 8 = m"
  have "n mod 8 < 8" by simp
  with a have "n mod 8 = 7 - m" by linarith
  moreover have "n = (n div 8) * 8 + n mod 8" by simp
  ultimately show "k * 8 + (7 - m) = n" using a by metis
qed

lemma BitsToBytes_length: "length (BitsToBytes bits) = (length bits + 7) div 8"
proof -
  have "length (fold (\<lambda>i bytes. if bits ! i
                  then bytes[i div 8 := (bytes ! (i div 8)) OR (push_bit (7 - i mod 8) 1)]
                  else bytes) xs a) = length a" for xs and a :: "byte list"
    by (induction xs arbitrary: a) auto
  then show ?thesis by (simp add: BitsToBytes_def)
qed

lemma BitsToBytes_fold_bit:
  fixes a :: "byte list"
  assumes "n \<le> length bits" "length a = (length bits + 7) div 8" "k < length a"
  shows "bit (fold (\<lambda>i bytes. if bits ! i
                  then bytes[i div 8 := (bytes ! (i div 8)) OR (push_bit (7 - i mod 8) 1)]
                  else bytes) [0..<n] a ! k) m
       \<longleftrightarrow> bit (a ! k) m \<or> (m < 8 \<and> k * 8 + (7 - m) < n \<and> bits ! (k * 8 + (7 - m)))"
  using assms(1)
proof (induction n)
  case 0
  show ?case by simp
next
  case (Suc n)
  let ?f = "\<lambda>i bytes. if bits ! i
                  then bytes[i div 8 := (bytes ! (i div 8)) OR (push_bit (7 - i mod 8) (1::byte))]
                  else bytes"
  let ?acc = "fold ?f [0..<n] a"
  have len: "length ?acc = length a"
    by (induction n) auto
  have IH: "bit (?acc ! k) m
       \<longleftrightarrow> bit (a ! k) m \<or> (m < 8 \<and> k * 8 + (7 - m) < n \<and> bits ! (k * 8 + (7 - m)))"
    using Suc by simp
  have ndiv: "n div 8 < length a" using Suc.prems assms(2) by simp
  have key: "m < 8 \<Longrightarrow> (k * 8 + (7 - m) = n) \<longleftrightarrow> (n div 8 = k \<and> 7 - n mod 8 = m)"
    by (rule idx_split)
  show ?case
  proof (cases "bits ! n")
    case False
    then show ?thesis using IH by (auto simp: less_Suc_eq)
  next
    case True
    show ?thesis
    proof (cases "n div 8 = k")
      case False
      with True IH len ndiv show ?thesis by (auto simp: less_Suc_eq)
    next
      case k: True
      have "bit (fold ?f [0..<Suc n] a ! k) m \<longleftrightarrow> bit (?acc ! k) m \<or> bit (push_bit (7 - n mod 8) (1::byte)) m"
        using True k len ndiv by (simp add: bit_or_iff)
      also have "bit (push_bit (7 - n mod 8) (1::byte)) m \<longleftrightarrow> (m < 8 \<and> 7 - n mod 8 = m)"
        by (auto simp: bit_exp_iff possible_bit_word)
      finally show ?thesis using IH True k key by (auto simp: less_Suc_eq)
    qed
  qed
qed

lemma BitsToBytes_BytesToBits: "BitsToBytes (BytesToBits d) = d"
proof (cases "d = []")
  case True
  then show ?thesis by (simp add: BitsToBytes_def BytesToBits_def)
next
  case False
  let ?bits = "BytesToBits d"
  have len: "length ?bits = 8 * length d" by (rule BytesToBits_length)
  have blen: "length (BitsToBytes ?bits) = length d"
    by (simp add: BitsToBytes_length len)
  show ?thesis
  proof (rule nth_equalityI [OF blen])
    fix k assume "k < length (BitsToBytes ?bits)"
    then have k: "k < length d" using blen by simp
    show "BitsToBytes ?bits ! k = d ! k"
    proof (rule bit_word_eqI)
      fix m assume "m < LENGTH(8)"
      then have m: "m < 8" by simp
      have "bit (BitsToBytes ?bits ! k) m \<longleftrightarrow>
            bit (replicate ((length ?bits + 7) div 8) (0::byte) ! k) m \<or> (m < 8 \<and> k * 8 + (7 - m) < length ?bits \<and> ?bits ! (k * 8 + (7 - m)))"
        using False k len
        by (simp only: BitsToBytes_def) (simp add: BitsToBytes_fold_bit)
      also have "\<dots> \<longleftrightarrow> ?bits ! (k * 8 + (7 - m))"
        using k m len by auto
      also have "\<dots> \<longleftrightarrow> bit (d ! k) m"
        using k m BytesToBits_nth [of k d "7 - m"] by simp
      finally show "bit (BitsToBytes ?bits ! k) m = bit (d ! k) m" .
    qed
  qed
qed

lemma BitsToBytes_nth_bit:
  assumes "k < length (BitsToBytes bits)" "m < 8"
  shows "bit (BitsToBytes bits ! k) m
         \<longleftrightarrow> k * 8 + (7 - m) < length bits \<and> bits ! (k * 8 + (7 - m))"
proof (cases "bits = []")
  case True
  with assms show ?thesis by (simp add: BitsToBytes_def)
next
  case False
  have k: "k < (length bits + 7) div 8"
    using assms(1) by (simp add: BitsToBytes_length)
  have "bit (BitsToBytes bits ! k) m \<longleftrightarrow>
        bit (replicate ((length bits + 7) div 8) (0::byte) ! k) m
          \<or> (m < 8 \<and> k * 8 + (7 - m) < length bits \<and> bits ! (k * 8 + (7 - m)))"
    using False k by (simp only: BitsToBytes_def) (simp add: BitsToBytes_fold_bit)
  then show ?thesis using k assms(2) by simp
qed

text \<open>
  Claim C6. Packing the bits of any byte sequence gives the sequence back. \<open>BytesToBits\<close>
  produces eight booleans per byte, bit \<open>i*8+j\<close> being bit \<open>7-j\<close> of byte \<open>i\<close> (most
  significant first); \<open>BitsToBytes\<close> produces \<open>(len+7)/8\<close> bytes whose bit \<open>m\<close> of byte \<open>k\<close>
  is input bit \<open>k*8+(7-m)\<close> when that exists and zero otherwise (zero padding).
\<close>

theorem bitpack_roundtrip:
  "BitsToBytes (BytesToBits d) = d
   \<and> length (BytesToBits d) = 8 * length d
   \<and> (\<forall>i j. i < length d \<and> j < 8 \<longrightarrow> BytesToBits d ! (i * 8 + j) = bit (d ! i) (7 - j))
   \<and> length (BitsToBytes bits) = (length bits + 7) div 8
   \<and> (\<forall>k m. k < length (BitsToBytes bits) \<and> m < 8 \<longrightarrow>
          bit (BitsToBytes bits ! k) m
            = (k * 8 + (7 - m) < length bits \<and> bits ! (k * 8 + (7 - m))))"
  using BitsToBytes_BytesToBits BytesToBits_length BytesToBits_nth BitsToBytes_length
    BitsToBytes_nth_bit by blast

theorem bitpack_roundtrip_witness:
  "BitsToBytes (BytesToBits [0x80, 0x01]) = [0x80, 0x01]
   \<and> (1::nat) < length [0x80, 0x01 :: byte] \<and> (7::nat) < 8
   \<and> BytesToBits [0x80, 0x01] ! (1 * 8 + 7) = True
   \<and> (0::nat) < length (BitsToBytes [True, False, True]) \<and> (5::nat) < 8
   \<and> bit (BitsToBytes [True, False, True] ! 0) 5 = True"
proof -
  note r = bitpack_roundtrip [of "[0x80, 0x01]" "[True, False, True]"]
  have h1: "(1::nat) < length [0x80, 0x01 :: byte] \<and> (7::nat) < 8"
    by simp
  have c1: "BytesToBits [0x80, 0x01] ! (1 * 8 + 7) = bit ([0x80, 0x01 :: byte] ! 1) (7 - 7)"
    using r [THEN conjunct2, THEN conjunct2, THEN conjunct1, rule_format, of 1 7] h1 by blast
  have len: "length (BitsToBytes [True, False, True]) = (length [True, False, True] + 7) div 8"
    using r by blast
  have h2: "(0::nat) < length (BitsToBytes [True, False, True]) \<and> (5::nat) < 8"
    unfolding len by simp
  have c2: "bit (BitsToBytes [True, False, True] ! 0) 5
              = (0 * 8 + (7 - 5) < length [True, False, True] \<and> [True, False, True] ! (0 * 8 + (7 - 5)))"
    using r [THEN conjunct2, THEN conjunct2, THEN conjunct2, THEN conjunct2, rule_format, of 0 5] h2
    by blast
  have "BitsToBytes (BytesToBits [0x80, 0x01]) = [0x80, 0x01]"
    using r by blast
  moreover have "BytesToBits [0x80, 0x01] ! (1 * 8 + 7) = True"
    unfolding c1 by simp
  moreover have "bit (BitsToBytes [True, False, True] ! 0) 5 = True"
    unfolding c2 by (simp add: numeral_2_eq_2)
  ultimately show ?thesis using h1 h2 by blast
qed

section \<open>Verification: repetition code\<close>

lemma fold_fill:
  assumes "length a = n"
  shows "fold (\<lambda>i a. a[i := h i]) [0..<n] a = map h [0..<n]"
proof (rule nth_equalityI)
  show "length (fold (\<lambda>i a. a[i := h i]) [0..<n] a) = length (map h [0..<n])"
    using assms by simp
next
  fix i assume "i < length (fold (\<lambda>i a. a[i := h i]) [0..<n] a)"
  then have i: "i < n" using assms by simp
  have "fold (\<lambda>x a. a[id x := h x]) [0..<n] a ! (id i) = h i"
    by (rule fold_update_nth) (use i assms in simp_all)
  then show "fold (\<lambda>i a. a[i := h i]) [0..<n] a ! i = map h [0..<n] ! i"
    using i by simp
qed

text \<open>The encoder's loop appends one triple per data bit.\<close>

lemma fold_triples:
  "fold (\<lambda>b enc. enc @ [b, b, b]) xs acc = acc @ concat (map (\<lambda>b. [b, b, b]) xs)"
  by (induction xs arbitrary: acc) auto

lemma length_triples: "length (concat (map (\<lambda>b. [b, b, b]) xs)) = 3 * length xs"
  by (induction xs) auto

lemma nth_triples:
  "i < length xs \<Longrightarrow> r < 3 \<Longrightarrow> concat (map (\<lambda>b. [b, b, b]) xs) ! (i * 3 + r) = xs ! i"
proof (induction xs arbitrary: i)
  case Nil
  then show ?case by simp
next
  case (Cons x xs)
  show ?case
  proof (cases i)
    case 0
    with Cons.prems(2) show ?thesis
      by (cases r rule: nat.exhaust [case_product nat.exhaust]) (auto simp: nth_Cons split: nat.splits)
  next
    case (Suc k)
    with Cons.prems have "k < length xs" by simp
    then have "concat (map (\<lambda>b. [b, b, b]) xs) ! (k * 3 + r) = xs ! k"
      using Cons.prems(2) by (rule Cons.IH)
    then show ?thesis using Suc by simp
  qed
qed

lemma EncodeFrame_eq: "EncodeFrame f = Inr (concat (map (\<lambda>b. [b, b, b]) (BytesToBits f)))"
  by (simp add: EncodeFrame_def fold_triples)

lemma majority_one_flip:
  "majority (\<not> b) b b = b" "majority b (\<not> b) b = b" "majority b b (\<not> b) = b"
  "majority b b b = b"
  by (cases b; simp add: majority_def)+

text \<open>
  Decoding any bit list that agrees with the triples of \<open>xs\<close> except at one position
  \<open>p\<close> recovers \<open>xs\<close>.
\<close>

lemma DecodeFrame_triples_flip:
  assumes "xs \<noteq> []"
    and len: "length bits = 3 * length xs"
    and agree: "\<And>q. q < 3 * length xs \<Longrightarrow> q \<noteq> p \<Longrightarrow>
                  bits ! q = concat (map (\<lambda>b. [b, b, b]) xs) ! q"
  shows "DecodeFrame bits = Inr (BitsToBytes xs)"
proof -
  let ?enc = "concat (map (\<lambda>b. [b, b, b]) xs)"
  have tc: "length bits div 3 = length xs" using len by simp
  have pos: "length bits \<noteq> 0" "length xs \<noteq> 0" using assms(1) len by auto
  have vote: "majority (bits ! (i * 3)) (bits ! (i * 3 + 1)) (bits ! (i * 3 + 2)) = xs ! i"
    if i: "i < length xs" for i
  proof -
    have e: "?enc ! (i * 3 + r) = xs ! i" if "r < 3" for r
      using i that by (rule nth_triples)
    have a: "bits ! (i * 3 + r) = xs ! i" if "r < 3" "i * 3 + r \<noteq> p" for r
      using agree [of "i * 3 + r"] e [of r] i that by simp
    consider "p = i * 3" | "p = i * 3 + 1" | "p = i * 3 + 2"
      | "p \<noteq> i * 3" "p \<noteq> i * 3 + 1" "p \<noteq> i * 3 + 2"
      by blast
    then show ?thesis
    proof cases
      case 1
      then have "bits ! (i * 3 + 1) = xs ! i" "bits ! (i * 3 + 2) = xs ! i"
        using a [of 1] a [of 2] by simp_all
      then show ?thesis
        by (cases "bits ! (i * 3)"; cases "xs ! i"; simp add: majority_def)
    next
      case 2
      then have "bits ! (i * 3) = xs ! i" "bits ! (i * 3 + 2) = xs ! i"
        using a [of 0] a [of 2] by simp_all
      then show ?thesis
        by (cases "bits ! (i * 3 + 1)"; cases "xs ! i"; simp add: majority_def)
    next
      case 3
      then have "bits ! (i * 3) = xs ! i" "bits ! (i * 3 + 1) = xs ! i"
        using a [of 0] a [of 1] by simp_all
      then show ?thesis
        by (cases "bits ! (i * 3 + 2)"; cases "xs ! i"; simp add: majority_def)
    next
      case 4
      then have "bits ! (i * 3) = xs ! i" "bits ! (i * 3 + 1) = xs ! i"
        "bits ! (i * 3 + 2) = xs ! i"
        using a [of 0] a [of 1] a [of 2] by simp_all
      then show ?thesis by (simp add: majority_one_flip)
    qed
  qed
  have "fold (\<lambda>i dec. dec[i := majority (bits ! (i * 3)) (bits ! (i * 3 + 1)) (bits ! (i * 3 + 2))])
          [0..<length xs] (replicate (length xs) False)
        = map (\<lambda>i. majority (bits ! (i * 3)) (bits ! (i * 3 + 1)) (bits ! (i * 3 + 2))) [0..<length xs]"
    by (rule fold_fill) simp
  also have "\<dots> = map (\<lambda>i. xs ! i) [0..<length xs]"
    using vote by simp
  also have "\<dots> = xs"
    by (rule map_nth)
  finally show ?thesis
    using pos tc by (simp add: DecodeFrame_def Let_def)
qed

lemma DecodeFrame_EncodeFrame_flip:
  assumes "f \<noteq> []" and "EncodeFrame f = Inr bits"
  shows "length bits = 24 * length f"
    and "DecodeFrame bits = Inr f"
    and "i < 24 * length f \<Longrightarrow> DecodeFrame (bits[i := \<not> bits ! i]) = Inr f"
proof -
  let ?xs = "BytesToBits f"
  have bits: "bits = concat (map (\<lambda>b. [b, b, b]) ?xs)"
    using assms(2) by (simp add: EncodeFrame_eq)
  have xs: "?xs \<noteq> []" "length ?xs = 8 * length f"
    using assms(1) BytesToBits_length [of f] by auto
  show l: "length bits = 24 * length f"
    using xs by (simp add: bits length_triples)
  then have l3: "length bits = 3 * length ?xs" using xs by simp
  have "DecodeFrame bits = Inr (BitsToBytes ?xs)"
    using xs(1) l3 by (rule DecodeFrame_triples_flip [where p = 0]) (simp add: bits)
  then show "DecodeFrame bits = Inr f"
    by (simp add: BitsToBytes_BytesToBits)
  have "DecodeFrame (bits[i := \<not> bits ! i]) = Inr (BitsToBytes ?xs)"
    using xs(1) by (rule DecodeFrame_triples_flip [where p = i]) (simp_all add: l3 bits [symmetric])
  then show "DecodeFrame (bits[i := \<not> bits ! i]) = Inr f"
    by (simp add: BitsToBytes_BytesToBits)
qed

text \<open>
  Claim C5, as the code has it. For every non-empty frame byte sequence \<open>f\<close>,
  \<open>EncodeFrame\<close> returns \<open>24 * len(f)\<close> bits, \<open>DecodeFrame\<close> of them returns \<open>f\<close>, and so does
  \<open>DecodeFrame\<close> after flipping the single bit at any position \<open>i < 24 * len(f)\<close>.
\<close>

theorem repetition3_single_error:
  assumes "f \<noteq> []"
  shows "\<exists>bits. EncodeFrame f = Inr bits \<and> length bits = 24 * length f
           \<and> DecodeFrame bits = Inr f
           \<and> (\<forall>i < 24 * length f. DecodeFrame (bits[i := \<not> bits ! i]) = Inr f)"
proof -
  obtain bits where enc: "EncodeFrame f = Inr bits"
    by (simp add: EncodeFrame_eq)
  from DecodeFrame_EncodeFrame_flip [OF assms enc] enc show ?thesis
    by blast
qed

theorem repetition3_single_error_witness:
  "[0x80 :: byte] \<noteq> []
   \<and> EncodeFrame [0x80] = Inr ([True, True, True] @ replicate 21 False)
   \<and> DecodeFrame ([True, True, True] @ replicate 21 False) = Inr [0x80]
   \<and> (0::nat) < 24 * length [0x80 :: byte]
   \<and> DecodeFrame ([False, True, True] @ replicate 21 False) = Inr [0x80]"
proof -
  have ne: "[0x80 :: byte] \<noteq> []" by simp
  have enc: "EncodeFrame [0x80] = Inr ([True, True, True] @ replicate 21 False)"
    by code_simp
  obtain bits where b: "EncodeFrame [0x80] = Inr bits" "DecodeFrame bits = Inr [0x80]"
    "\<forall>i < 24 * length [0x80 :: byte]. DecodeFrame (bits[i := \<not> bits ! i]) = Inr [0x80]"
    using repetition3_single_error [OF ne] by blast
  have eq: "bits = [True, True, True] @ replicate 21 False"
    using b(1) enc by simp
  have i: "(0::nat) < 24 * length [0x80 :: byte]" by simp
  have "DecodeFrame (bits[0 := \<not> bits ! 0]) = Inr [0x80]"
    using b(3) i by blast
  then have "DecodeFrame ([False, True, True] @ replicate 21 False) = Inr [0x80]"
    by (simp add: eq)
  then show ?thesis using ne enc b(2) eq i by blast
qed

text \<open>
  The claim as written also covers the empty sequence. There the encoder returns no
  bits and the decoder's guard answers \<open>ErrInsufficientBits\<close>.
\<close>

theorem repetition3_empty_counterexample:
  "EncodeFrame [] = Inr [] \<and> DecodeFrame [] = Inl ErrInsufficientBits"
  by (simp add: EncodeFrame_def BytesToBits_def DecodeFrame_def)

section \<open>Verification: frame protocol\<close>

lemma Magic_bytes: "Magic = [0x45, 0x4D, 0x47, 0x30]"
  by (simp add: Magic_def)

lemma replicate16: "replicate 16 (x::'a) = [x, x, x, x, x, x, x, x, x, x, x, x, x, x, x, x]"
  by (simp add: numeral_eq_Suc)

lemma length_PutUint32 [simp]: "length (PutUint32 v) = 4"
  by (simp add: PutUint32_def)

lemma Uint32_PutUint32: "Uint32 (PutUint32 v) = v"
proof (rule bit_word_eqI)
  fix n assume "n < LENGTH(32)"
  then consider "n < 8" | "8 \<le> n" "n < 16" | "16 \<le> n" "n < 24" | "24 \<le> n" "n < 32"
    by fastforce
  then show "bit (Uint32 (PutUint32 v)) n = bit v n"
    by cases (auto simp: Uint32_def PutUint32_def bit_simps)
qed

lemma PutUint32_Uint32: "PutUint32 (Uint32 [a, b, c, d]) = [a, b, c, d]"
proof -
  have "ucast (drop_bit 24 (Uint32 [a, b, c, d])) = a"
    by (rule bit_word_eqI) (auto simp: Uint32_def bit_simps dest: bit_imp_le_length)
  moreover have "ucast (drop_bit 16 (Uint32 [a, b, c, d])) = b"
    by (rule bit_word_eqI) (auto simp: Uint32_def bit_simps dest: bit_imp_le_length)
  moreover have "ucast (drop_bit 8 (Uint32 [a, b, c, d])) = c"
    by (rule bit_word_eqI) (auto simp: Uint32_def bit_simps dest: bit_imp_le_length)
  moreover have "ucast (Uint32 [a, b, c, d]) = d"
    by (rule bit_word_eqI) (auto simp: Uint32_def bit_simps dest: bit_imp_le_length)
  ultimately show ?thesis by (simp add: PutUint32_def)
qed

text \<open>A number below \<open>2^32\<close> is the sum of its four base-256 digits.\<close>

lemma nat_bytes:
  fixes n :: nat
  assumes "n < 2 ^ 32"
  shows "n = (n div 2 ^ 24) mod 256 * 2 ^ 24 + (n div 2 ^ 16) mod 256 * 2 ^ 16
             + (n div 2 ^ 8) mod 256 * 2 ^ 8 + n mod 256"
proof -
  define q1 where "q1 = n div 256"
  define q2 where "q2 = q1 div 256"
  define q3 where "q3 = q2 div 256"
  have d1: "n div 2 ^ 8 = q1" by (simp add: q1_def)
  have d2: "n div 2 ^ 16 = q2"
    using div_mult2_eq [of n 256 256] by (simp add: q1_def q2_def)
  have d3: "n div 2 ^ 24 = q3"
    using div_mult2_eq [of n 65536 256] d2 by (simp add: q3_def)
  have "q3 < 256" using assms d3 [symmetric] by simp
  then have m3: "q3 mod 256 = q3" by simp
  define r0 where "r0 = n mod 256"
  define r1 where "r1 = q1 mod 256"
  define r2 where "r2 = q2 mod 256"
  have e1: "n = q1 * 256 + r0" by (simp add: q1_def r0_def)
  have e2: "q1 = q2 * 256 + r1" by (simp add: q2_def r1_def)
  have e3: "q2 = q3 * 256 + r2" by (simp add: q3_def r2_def)
  have "n = q3 * 2 ^ 24 + r2 * 2 ^ 16 + r1 * 2 ^ 8 + r0"
    by (simp add: e1 e2 e3)
  then show ?thesis by (simp only: d1 d2 d3 m3 r0_def r1_def r2_def)
qed

lemma unat_bytes:
  fixes v :: uint32
  shows "unat v = unat (ucast (drop_bit 24 v) :: byte) * 2 ^ 24
                + unat (ucast (drop_bit 16 v) :: byte) * 2 ^ 16
                + unat (ucast (drop_bit 8 v) :: byte) * 2 ^ 8
                + unat (ucast v :: byte)"
proof -
  have "unat v < 2 ^ 32" using unsigned_less [of v] by simp
  then have "unat v div 16777216 < 256" by simp
  then have top: "unat v div 16777216 mod 256 = unat v div 16777216" by simp
  from nat_bytes [OF \<open>unat v < 2 ^ 32\<close>] show ?thesis
    by (simp add: unsigned_ucast_eq take_bit_eq_mod unat_drop_bit_eq drop_bit_eq_div unat_div top)
qed

lemma unat_Uint32:
  "unat (Uint32 [a, b, c, d]) = unat a * 2 ^ 24 + unat b * 2 ^ 16 + unat c * 2 ^ 8 + unat d"
  using unat_bytes [of "Uint32 [a, b, c, d]"] PutUint32_Uint32 [of a b c d]
  by (simp add: PutUint32_def)

lemma subslice4:
  "k + 4 \<le> length f \<Longrightarrow> subslice f k (k + 4) = [f ! k, f ! (k + 1), f ! (k + 2), f ! (k + 3)]"
  by (simp add: subslice_def list_eq_iff_nth_eq less_Suc_eq numeral_eq_Suc add.commute)

lemma unat_Uint32_subslice:
  assumes "k + 4 \<le> length f"
  shows "unat (Uint32 (subslice f k (k + 4))) = be_uint32 f k"
  by (simp only: subslice4 [OF assms] unat_Uint32 be_uint32_def)

text \<open>The frame \<open>BuildFrame\<close> returns, byte for byte.\<close>

lemma header_bytes:
  fixes m0 :: byte
  shows "(let header = replicate 16 0;
          header = copy_at (take 4 header) 0 [m0, m1, m2, m3] @ drop 4 header;
          header = header[4 := v];
          header = header[5 := s];
          header = take 8 header @ copy_at (subslice header 8 12) 0 [a0, a1, a2, a3] @ drop 12 header;
          header = take 12 header @ copy_at (subslice header 12 16) 0 [b0, b1, b2, b3] @ drop 16 header
      in header) = [m0, m1, m2, m3, v, s, 0, 0, a0, a1, a2, a3, b0, b1, b2, b3]"
  by (simp add: replicate16 copy_at_def subslice_def)

lemma frame_bytes:
  "length header = 16 \<Longrightarrow>
   (let frame = replicate (16 + length message) (0::byte);
        frame = copy_at (take 16 frame) 0 header @ drop 16 frame;
        frame = copy_at frame 16 message
    in frame) = header @ message"
  by (simp add: copy_at_def)

lemma frame_bytes16:
  "(let frame = replicate (16 + length message) (0::byte);
        frame = copy_at (take 16 frame) 0
                  [h0, h1, h2, h3, h4, h5, h6, h7, h8, h9, h10, h11, h12, h13, h14, h15]
                  @ drop 16 frame;
        frame = copy_at frame 16 message
    in frame) = [h0, h1, h2, h3, h4, h5, h6, h7, h8, h9, h10, h11, h12, h13, h14, h15] @ message"
  by (rule frame_bytes) simp

lemma BuildFrame_eq:
  "BuildFrame p s = Inr (Magic @ [CurrentVersion, s, 0, 0] @ PutUint32 (of_nat (length p))
                           @ PutUint32 (ChecksumIEEE p) @ p)"
proof -
  obtain a0 a1 a2 a3 where a: "PutUint32 (of_nat (length p)) = [a0, a1, a2, a3]"
    by (simp add: PutUint32_def)
  obtain b0 b1 b2 b3 where b: "PutUint32 (ChecksumIEEE p) = [b0, b1, b2, b3]"
    by (simp add: PutUint32_def)
  have "BuildFrame p s = Inr ([0x45, 0x4D, 0x47, 0x30, CurrentVersion, s, 0, 0,
                               a0, a1, a2, a3, b0, b1, b2, b3] @ p)"
    apply (simp only: BuildFrame_def Let_def HeaderSize_def Magic_bytes a b)
    apply (simp only: header_bytes [unfolded Let_def])
    apply (simp only: frame_bytes16 [unfolded Let_def])
    done
  then show ?thesis
    by (simp add: Magic_bytes a b)
qed

text \<open>\<open>ParseFrame\<close> as one cascade over the bytes of the frame.\<close>

lemma ParseFrame_eq:
  "ParseFrame f =
     (if length f < 16 then Inl ErrFrameTooShort
      else if take 4 f \<noteq> Magic then Inl ErrInvalidMagic
      else if length f < 16 + unat (Uint32 (subslice f 8 12)) then Inl ErrInvalidLength
      else if ChecksumIEEE (take (unat (Uint32 (subslice f 8 12))) (drop 16 f))
                \<noteq> Uint32 (subslice f 12 16)
        then Inl ErrCRCMismatch
      else Inr (\<lparr>hMagic = take 4 f, Version = f ! 4, ECCScheme = f ! 5, Reserved = [f ! 6, f ! 7],
                 PayloadLength = Uint32 (subslice f 8 12),
                 PayloadCRC32 = Uint32 (subslice f 12 16)\<rparr>,
                take (unat (Uint32 (subslice f 8 12))) (drop 16 f)))"
proof (cases "length f < 16")
  case True
  then show ?thesis by (simp add: ParseFrame_def HeaderSize_def)
next
  case False
  then have "subslice f 6 8 = [f ! 6, f ! 7]"
    by (simp add: subslice_def list_eq_iff_nth_eq less_Suc_eq numeral_2_eq_2)
  then have "copy_at [0, 0] 0 (subslice f 6 8) = [f ! 6, f ! 7]"
    by (simp add: copy_at_def)
  with False show ?thesis
    by (simp add: ParseFrame_def HeaderSize_def Let_def subslice_def)
qed

lemma ParseFrame_be:
  "ParseFrame f =
     (if length f < 16 then Inl ErrFrameTooShort
      else if take 4 f \<noteq> Magic then Inl ErrInvalidMagic
      else if length f < 16 + be_uint32 f 8 then Inl ErrInvalidLength
      else if unat (ChecksumIEEE (take (be_uint32 f 8) (drop 16 f))) \<noteq> be_uint32 f 12
        then Inl ErrCRCMismatch
      else Inr (\<lparr>hMagic = take 4 f, Version = f ! 4, ECCScheme = f ! 5, Reserved = [f ! 6, f ! 7],
                 PayloadLength = of_nat (be_uint32 f 8),
                 PayloadCRC32 = of_nat (be_uint32 f 12)\<rparr>,
                take (be_uint32 f 8) (drop 16 f)))"
proof (cases "length f < 16")
  case True
  then show ?thesis by (simp add: ParseFrame_eq)
next
  case False
  then have l: "unat (Uint32 (subslice f 8 12)) = be_uint32 f 8"
    and c: "unat (Uint32 (subslice f 12 16)) = be_uint32 f 12"
    using unat_Uint32_subslice [of 8 f] unat_Uint32_subslice [of 12 f] by simp_all
  have l': "Uint32 (subslice f 8 12) = of_nat (be_uint32 f 8)"
    and c': "Uint32 (subslice f 12 16) = of_nat (be_uint32 f 12)"
    by (simp_all add: l [symmetric] c [symmetric])
  have "(x \<noteq> Uint32 (subslice f 12 16)) = (unat x \<noteq> be_uint32 f 12)" for x
    by (simp add: c [symmetric] word_unat_eq_iff)
  then show ?thesis
    by (simp add: ParseFrame_eq l) (simp add: l' c')
qed

lemma built_frame_parses:
  assumes "length p < 2 ^ 32"
  shows "ParseFrame (Magic @ [CurrentVersion, s, 0, 0] @ PutUint32 (of_nat (length p))
                       @ PutUint32 (ChecksumIEEE p) @ p)
         = Inr (\<lparr>hMagic = Magic, Version = CurrentVersion, ECCScheme = s, Reserved = [0, 0],
                  PayloadLength = of_nat (length p), PayloadCRC32 = ChecksumIEEE p\<rparr>, p)"
proof -
  let ?L = "of_nat (length p) :: uint32"
  let ?f = "Magic @ [CurrentVersion, s, 0, 0] @ PutUint32 ?L @ PutUint32 (ChecksumIEEE p) @ p"
  have len: "unat ?L = length p"
    using assms by (simp add: unat_of_nat)
  have s8: "subslice ?f 8 12 = PutUint32 ?L"
    by (simp add: subslice_def Magic_bytes)
  have s12: "subslice ?f 12 16 = PutUint32 (ChecksumIEEE p)"
    by (simp add: subslice_def Magic_bytes)
  have d16: "drop 16 ?f = p"
    by (simp add: Magic_bytes)
  have t4: "take 4 ?f = Magic"
    by (simp add: Magic_bytes)
  have n: "?f ! 4 = CurrentVersion" "?f ! 5 = s" "?f ! 6 = 0" "?f ! 7 = 0"
    by (simp_all add: Magic_bytes)
  have l: "length ?f = 16 + length p"
    by (simp add: Magic_bytes)
  show ?thesis
    by (simp only: ParseFrame_eq s8 s12 d16 t4 n l Uint32_PutUint32 len) simp
qed

text \<open>
  Claim C2. For every payload \<open>p\<close> shorter than \<open>2^32\<close> bytes and every scheme id \<open>s\<close>,
  \<open>BuildFrame\<close> succeeds and \<open>ParseFrame\<close> of its frame succeeds with the magic \<open>EMG0\<close>,
  version \<open>0x01\<close> (\<open>CurrentVersion\<close>), scheme \<open>s\<close>, two zero reserved bytes, the payload
  length \<open>len(p)\<close>, the CRC-32 of \<open>p\<close>, and the payload \<open>p\<close> itself.
\<close>

theorem frame_roundtrip:
  assumes "length p < 2 ^ 32"
  shows "\<exists>frame. BuildFrame p s = Inr frame
           \<and> ParseFrame frame =
               Inr (\<lparr>hMagic = map of_char ''EMG0'', Version = 0x01, ECCScheme = s,
                      Reserved = [0, 0], PayloadLength = of_nat (length p),
                      PayloadCRC32 = ChecksumIEEE p\<rparr>, p)
           \<and> unat (of_nat (length p) :: uint32) = length p
           \<and> CurrentVersion = 0x01"
proof -
  have "unat (of_nat (length p) :: uint32) = length p"
    using assms by (simp add: unat_of_nat)
  then show ?thesis
    using built_frame_parses [OF assms, of s]
    by (simp add: BuildFrame_eq Magic_def CurrentVersion_def)
qed

lemma funpow8: "(f ^^ 8) x = f (f (f (f (f (f (f (f x)))))))"
  by (simp add: numeral_eq_Suc)

lemma crc_A: "ChecksumIEEE [0x41] = 0xD3D99E8B"
  by (simp add: ChecksumIEEE_def crc_update_def funpow8 crc_shift_def)

lemma BuildFrame_A:
  "BuildFrame [0x41] 1 = Inr [0x45, 0x4D, 0x47, 0x30, 1, 1, 0, 0, 0, 0, 0, 1, 0xD3, 0xD9, 0x9E, 0x8B, 0x41]"
  by (simp add: BuildFrame_eq crc_A Magic_bytes CurrentVersion_def PutUint32_def)

theorem frame_roundtrip_witness:
  "length [0x41 :: byte] < 2 ^ 32
   \<and> BuildFrame [0x41] 1
       = Inr [0x45, 0x4D, 0x47, 0x30, 1, 1, 0, 0, 0, 0, 0, 1, 0xD3, 0xD9, 0x9E, 0x8B, 0x41]
   \<and> ParseFrame [0x45, 0x4D, 0x47, 0x30, 1, 1, 0, 0, 0, 0, 0, 1, 0xD3, 0xD9, 0x9E, 0x8B, 0x41]
       = Inr (\<lparr>hMagic = [0x45, 0x4D, 0x47, 0x30], Version = 1, ECCScheme = 1, Reserved = [0, 0],
                PayloadLength = 1, PayloadCRC32 = 0xD3D99E8B\<rparr>, [0x41])"
proof -
  have h: "length [0x41 :: byte] < 2 ^ 32" by simp
  obtain frame where f: "BuildFrame [0x41] 1 = Inr frame"
    and p: "ParseFrame frame =
              Inr (\<lparr>hMagic = map of_char ''EMG0'', Version = 0x01, ECCScheme = 1,
                     Reserved = [0, 0], PayloadLength = of_nat (length [0x41 :: byte]),
                     PayloadCRC32 = ChecksumIEEE [0x41]\<rparr>, [0x41])"
    using frame_roundtrip [OF h, of 1] by blast
  have "frame = [0x45, 0x4D, 0x47, 0x30, 1, 1, 0, 0, 0, 0, 0, 1, 0xD3, 0xD9, 0x9E, 0x8B, 0x41]"
    using f by (simp add: BuildFrame_A)
  with p h show ?thesis
    by (simp add: BuildFrame_A crc_A)
qed

text \<open>
  Claim C3. \<open>ParseFrame\<close> fails with \<open>ErrFrameTooShort\<close> if the frame has fewer than 16
  bytes; otherwise with \<open>ErrInvalidMagic\<close> if its first four bytes are not \<open>EMG0\<close>; otherwise
  with \<open>ErrInvalidLength\<close> if 16 plus the big-endian number in bytes 8 to 11 exceeds its
  length; otherwise with \<open>ErrCRCMismatch\<close> if the CRC-32 of the payload slice differs from
  the big-endian number in bytes 12 to 15; otherwise it succeeds. It fails under these
  four conditions only.
\<close>

theorem ParseFrame_failure_conditions:
  "ParseFrame f =
     (if length f < 16 then Inl ErrFrameTooShort
      else if take 4 f \<noteq> map of_char ''EMG0'' then Inl ErrInvalidMagic
      else if 16 + be_uint32 f 8 > length f then Inl ErrInvalidLength
      else if unat (ChecksumIEEE (take (be_uint32 f 8) (drop 16 f))) \<noteq> be_uint32 f 12
        then Inl ErrCRCMismatch
      else Inr (\<lparr>hMagic = take 4 f, Version = f ! 4, ECCScheme = f ! 5, Reserved = [f ! 6, f ! 7],
                 PayloadLength = of_nat (be_uint32 f 8),
                 PayloadCRC32 = of_nat (be_uint32 f 12)\<rparr>,
                take (be_uint32 f 8) (drop 16 f)))
   \<and> ((\<exists>e. ParseFrame f = Inl e) \<longleftrightarrow>
        (length f < 16 \<or> take 4 f \<noteq> map of_char ''EMG0'' \<or> 16 + be_uint32 f 8 > length f
         \<or> unat (ChecksumIEEE (take (be_uint32 f 8) (drop 16 f))) \<noteq> be_uint32 f 12))"
  by (simp add: ParseFrame_be Magic_def)

lemma crc_BE: "ChecksumIEEE [0xBE] = 0xFEDB7106"
  by (simp add: ChecksumIEEE_def crc_update_def funpow8 crc_shift_def)

theorem ParseFrame_failure_conditions_witness:
  "ParseFrame [0x45, 0x4D, 0x47] = Inl ErrFrameTooShort
   \<and> ParseFrame [0x58, 0x58, 0x58, 0x58, 0, 0, 0, 0, 0, 0, 0, 0, 0, 0, 0, 0, 0] = Inl ErrInvalidMagic
   \<and> ParseFrame [0x45, 0x4D, 0x47, 0x30, 1, 1, 0, 0, 0, 0, 0, 5, 0, 0, 0, 0, 0x41]
       = Inl ErrInvalidLength
   \<and> ParseFrame [0x45, 0x4D, 0x47, 0x30, 1, 1, 0, 0, 0, 0, 0, 1, 0xD3, 0xD9, 0x9E, 0x8B, 0xBE]
       = Inl ErrCRCMismatch
   \<and> ParseFrame [0x45, 0x4D, 0x47, 0x30, 1, 1, 0, 0, 0, 0, 0, 1, 0xD3, 0xD9, 0x9E, 0x8B, 0x41]
       = Inr (\<lparr>hMagic = [0x45, 0x4D, 0x47, 0x30], Version = 1, ECCScheme = 1, Reserved = [0, 0],
                PayloadLength = 1, PayloadCRC32 = 0xD3D99E8B\<rparr>, [0x41])"
proof -
  have "ParseFrame [0x45, 0x4D, 0x47] = Inl ErrFrameTooShort"
    using ParseFrame_failure_conditions [of "[0x45, 0x4D, 0x47]"] by simp
  moreover have
    "ParseFrame [0x58, 0x58, 0x58, 0x58, 0, 0, 0, 0, 0, 0, 0, 0, 0, 0, 0, 0, 0] = Inl ErrInvalidMagic"
    using ParseFrame_failure_conditions
      [of "[0x58, 0x58, 0x58, 0x58, 0, 0, 0, 0, 0, 0, 0, 0, 0, 0, 0, 0, 0]"] by simp
  moreover have
    "ParseFrame [0x45, 0x4D, 0x47, 0x30, 1, 1, 0, 0, 0, 0, 0, 5, 0, 0, 0, 0, 0x41]
       = Inl ErrInvalidLength"
    using ParseFrame_failure_conditions
      [of "[0x45, 0x4D, 0x47, 0x30, 1, 1, 0, 0, 0, 0, 0, 5, 0, 0, 0, 0, 0x41]"]
    by (simp add: be_uint32_def)
  moreover have
    "ParseFrame [0x45, 0x4D, 0x47, 0x30, 1, 1, 0, 0, 0, 0, 0, 1, 0xD3, 0xD9, 0x9E, 0x8B, 0xBE]
       = Inl ErrCRCMismatch"
    using ParseFrame_failure_conditions
      [of "[0x45, 0x4D, 0x47, 0x30, 1, 1, 0, 0, 0, 0, 0, 1, 0xD3, 0xD9, 0x9E, 0x8B, 0xBE]"]
    by (simp add: be_uint32_def crc_BE)
  moreover have
    "ParseFrame [0x45, 0x4D, 0x47, 0x30, 1, 1, 0, 0, 0, 0, 0, 1, 0xD3, 0xD9, 0x9E, 0x8B, 0x41]
       = Inr (\<lparr>hMagic = [0x45, 0x4D, 0x47, 0x30], Version = 1, ECCScheme = 1, Reserved = [0, 0],
                PayloadLength = 1, PayloadCRC32 = 0xD3D99E8B\<rparr>, [0x41])"
    using ParseFrame_failure_conditions
      [of "[0x45, 0x4D, 0x47, 0x30, 1, 1, 0, 0, 0, 0, 0, 1, 0xD3, 0xD9, 0x9E, 0x8B, 0x41]"]
    by (simp add: be_uint32_def crc_A)
  ultimately show ?thesis by blast
qed

text \<open>Overwriting bytes 4, 6 and 7 changes none of the bytes the four checks read.\<close>

lemma ParseFrame_update_467:
  "ParseFrame (f[4 := v, 6 := r1, 7 := r2])
     = (case ParseFrame f of
          Inl e \<Rightarrow> Inl e
        | Inr (h, p) \<Rightarrow> Inr (h\<lparr>Version := v, Reserved := [r1, r2]\<rparr>, p))"
proof -
  let ?g = "f[4 := v, 6 := r1, 7 := r2]"
  have s8: "subslice ?g 8 12 = subslice f 8 12" and s12: "subslice ?g 12 16 = subslice f 12 16"
    by (simp_all add: subslice_def)
  have t4: "take 4 ?g = take 4 f" and d16: "drop 16 ?g = drop 16 f"
    by simp_all
  have n: "16 \<le> length f \<Longrightarrow> ?g ! 4 = v \<and> ?g ! 5 = f ! 5 \<and> ?g ! 6 = r1 \<and> ?g ! 7 = r2"
    by simp
  show ?thesis
    by (simp only: ParseFrame_eq [of ?g] ParseFrame_eq [of f] s8 s12 t4 d16 length_list_update)
       (use n in \<open>simp add: not_less\<close>)
qed

text \<open>
  Claim C9. \<open>ParseFrame\<close> never validates the version byte (byte 4) or the reserved bytes
  (bytes 6 and 7): overwriting them with any values leaves every failure as it was and
  turns every success into the same success with the new bytes echoed in the header.
  Parsing succeeds exactly when the length, magic, declared-length and CRC checks pass,
  and the header it returns echoes bytes 4, 6 and 7 of the frame.
\<close>

theorem ParseFrame_ignores_version_reserved:
  "ParseFrame (f[4 := v, 6 := r1, 7 := r2])
     = (case ParseFrame f of
          Inl e \<Rightarrow> Inl e
        | Inr (h, p) \<Rightarrow> Inr (h\<lparr>Version := v, Reserved := [r1, r2]\<rparr>, p))
   \<and> (\<forall>h p. ParseFrame f = Inr (h, p) \<longrightarrow> Version h = f ! 4 \<and> Reserved h = [f ! 6, f ! 7])
   \<and> ((\<exists>h p. ParseFrame f = Inr (h, p)) \<longleftrightarrow>
        (16 \<le> length f \<and> take 4 f = map of_char ''EMG0'' \<and> 16 + be_uint32 f 8 \<le> length f
         \<and> unat (ChecksumIEEE (take (be_uint32 f 8) (drop 16 f))) = be_uint32 f 12))"
proof -
  have "\<forall>h p. ParseFrame f = Inr (h, p) \<longrightarrow> Version h = f ! 4 \<and> Reserved h = [f ! 6, f ! 7]"
    by (auto simp: ParseFrame_be split: if_splits)
  moreover have "(\<exists>h p. ParseFrame f = Inr (h, p)) \<longleftrightarrow>
        (16 \<le> length f \<and> take 4 f = map of_char ''EMG0'' \<and> 16 + be_uint32 f 8 \<le> length f
         \<and> unat (ChecksumIEEE (take (be_uint32 f 8) (drop 16 f))) = be_uint32 f 12)"
    by (simp add: ParseFrame_be Magic_def not_less)
  ultimately show ?thesis
    using ParseFrame_update_467 [of f v r1 r2] by blast
qed

theorem ParseFrame_ignores_version_reserved_witness:
  "ParseFrame [0x45, 0x4D, 0x47, 0x30, 1, 1, 0, 0, 0, 0, 0, 1, 0xD3, 0xD9, 0x9E, 0x8B, 0x41]
       = Inr (\<lparr>hMagic = [0x45, 0x4D, 0x47, 0x30], Version = 1, ECCScheme = 1, Reserved = [0, 0],
                PayloadLength = 1, PayloadCRC32 = 0xD3D99E8B\<rparr>, [0x41])
   \<and> ParseFrame [0x45, 0x4D, 0x47, 0x30, 0x7F, 1, 0xAA, 0xBB, 0, 0, 0, 1, 0xD3, 0xD9, 0x9E, 0x8B, 0x41]
       = Inr (\<lparr>hMagic = [0x45, 0x4D, 0x47, 0x30], Version = 0x7F, ECCScheme = 1,
                Reserved = [0xAA, 0xBB], PayloadLength = 1, PayloadCRC32 = 0xD3D99E8B\<rparr>, [0x41])"
proof -
  let ?f = "[0x45, 0x4D, 0x47, 0x30, 1, 1, 0, 0, 0, 0, 0, 1, 0xD3, 0xD9, 0x9E, 0x8B, 0x41] :: byte list"
  have ok: "ParseFrame ?f
       = Inr (\<lparr>hMagic = [0x45, 0x4D, 0x47, 0x30], Version = 1, ECCScheme = 1, Reserved = [0, 0],
                PayloadLength = 1, PayloadCRC32 = 0xD3D99E8B\<rparr>, [0x41])"
    by (simp add: ParseFrame_be Magic_bytes be_uint32_def crc_A)
  have "ParseFrame (?f[4 := 0x7F, 6 := 0xAA, 7 := 0xBB])
       = (case ParseFrame ?f of
            Inl e \<Rightarrow> Inl e
          | Inr (h, p) \<Rightarrow> Inr (h\<lparr>Version := 0x7F, Reserved := [0xAA, 0xBB]\<rparr>, p))"
    using ParseFrame_ignores_version_reserved [of ?f "0x7F" "0xAA" "0xBB"] by blast
  then show ?thesis
    by (simp add: ok)
qed

section \<open>Verification: capacity calculator\<close>

lemma length_EncodeFrame:
  "EncodeFrame f = Inr bits \<Longrightarrow> length bits = 24 * length f"
  by (auto simp: EncodeFrame_eq length_triples BytesToBits_length)

lemma int_of_float_nonneg: "0 \<le> x \<Longrightarrow> int_of_float x = \<lfloor>x\<rfloor>"
  by (simp add: int_of_float_def)

lemma floor_two_thirds: "\<lfloor>real_of_int m / 1.5\<rfloor> = (2 * m) div 3"
proof -
  have "real_of_int m / 1.5 = real_of_int (2 * m) / real_of_int 3" by simp
  then show ?thesis by (simp only: floor_divide_of_int_eq)
qed

lemma GetCapacityInfoFromData_Repetition3:
  "GetCapacityInfoFromData yPlane ECCSchemeRepetition3 =
     Some (Inr \<lparr>ciWidth = int (Width yPlane), ciHeight = int (Height yPlane),
                 BlocksAcross = int (Width yPlane div 8), BlocksDown = int (Height yPlane div 8),
                 ciCapacityBits = int ((Width yPlane div 8) * (Height yPlane div 8)),
                 MaxPayloadBytes =
                   max 0 (int ((Width yPlane div 8) * (Height yPlane div 8) div 24) - 16),
                 MaxUTF8Chars =
                   \<lfloor>real_of_int
                      (max 0 (int ((Width yPlane div 8) * (Height yPlane div 8) div 24) - 16))
                    / 1.5\<rfloor>\<rparr>)"
proof -
  obtain bits where enc: "EncodeFrame (replicate 17 0) = Inr bits"
    by (simp add: EncodeFrame_eq)
  have len: "length bits = 408"
    using length_EncodeFrame [OF enc] by simp
  have tail: "int_of_float (real_of_int (if m < 0 then 0 else m) / 1.5)
                = \<lfloor>real_of_int (max 0 m) / 1.5\<rfloor>"
    and clamp: "(if m < 0 then 0 else m) = max 0 m" for m :: int
    by (simp_all add: int_of_float_def max_def)
  have "GetCapacityInfoFromData yPlane ECCSchemeRepetition3 =
     Some (Inr \<lparr>ciWidth = int (Width yPlane), ciHeight = int (Height yPlane),
                 BlocksAcross = int (Width yPlane) div 8, BlocksDown = int (Height yPlane) div 8,
                 ciCapacityBits = int (Width yPlane) div 8 * (int (Height yPlane) div 8),
                 MaxPayloadBytes =
                   (let m = int (Width yPlane) div 8 * (int (Height yPlane) div 8) div 24 - 16
                    in if m < 0 then 0 else m),
                 MaxUTF8Chars =
                   (let m = int (Width yPlane) div 8 * (int (Height yPlane) div 8) div 24 - 16
                    in int_of_float (real_of_int (if m < 0 then 0 else m) / 1.5))\<rparr>)"
    by (simp add: GetCapacityInfoFromData_def GetScheme_def HeaderSize_def enc len Let_def)
  then show ?thesis
    by (simp only: Let_def tail) (simp add: zdiv_int max_def)
qed

text \<open>
  Claim C7. With the repetition-3 scheme \<open>GetCapacityInfoFromData\<close> returns
  \<open>CapacityBits = (w/8) * (h/8)\<close>, \<open>MaxPayloadBytes = max(0, CapacityBits/24 - 16)\<close> and
  \<open>MaxUTF8Chars = floor(MaxPayloadBytes / 1.5)\<close> for a plane of width \<open>w\<close> and height \<open>h\<close>;
  the expansion factor 3 is the encoded-bit count of a dummy frame of 17 zero bytes
  divided by \<open>17 * 8\<close>; a 1024 by 1024 plane yields 128 by 128 blocks, 16384 bits, 666
  payload bytes and 444 characters.
\<close>

theorem capacity_arithmetic:
  "GetCapacityInfoFromData yPlane ECCSchemeRepetition3 =
     Some (Inr \<lparr>ciWidth = int (Width yPlane), ciHeight = int (Height yPlane),
                 BlocksAcross = int (Width yPlane div 8), BlocksDown = int (Height yPlane div 8),
                 ciCapacityBits = int ((Width yPlane div 8) * (Height yPlane div 8)),
                 MaxPayloadBytes =
                   max 0 (int ((Width yPlane div 8) * (Height yPlane div 8) div 24) - 16),
                 MaxUTF8Chars =
                   \<lfloor>real_of_int
                      (max 0 (int ((Width yPlane div 8) * (Height yPlane div 8) div 24) - 16))
                    / 1.5\<rfloor>\<rparr>)
   \<and> CapacityBits (Width yPlane) (Height yPlane) = (Width yPlane div 8) * (Height yPlane div 8)
   \<and> (\<exists>bits. Scheme_EncodeFrame Repetition3 (replicate (HeaderSize + 1) 0) = Inr bits
         \<and> length bits div (17 * 8) = 3)
   \<and> GetCapacityInfoFromData \<lparr>Pix = pix, Width = 1024, Height = 1024, Stride = stride\<rparr>
         ECCSchemeRepetition3 =
       Some (Inr \<lparr>ciWidth = 1024, ciHeight = 1024, BlocksAcross = 128, BlocksDown = 128,
                   ciCapacityBits = 16384, MaxPayloadBytes = 666, MaxUTF8Chars = 444\<rparr>)"
proof -
  obtain bits where enc: "EncodeFrame (replicate 17 0) = Inr bits"
    by (simp add: EncodeFrame_eq)
  have len: "length bits = 408"
    using length_EncodeFrame [OF enc] by simp
  have e: "\<exists>bits. Scheme_EncodeFrame Repetition3 (replicate (HeaderSize + 1) 0) = Inr bits
         \<and> length bits div (17 * 8) = 3"
    using enc len by (simp add: HeaderSize_def)
  have "\<lfloor>real_of_int 666 / 1.5\<rfloor> = (444 :: int)"
    by (simp add: floor_two_thirds)
  then have c: "GetCapacityInfoFromData \<lparr>Pix = pix, Width = 1024, Height = 1024, Stride = stride\<rparr>
         ECCSchemeRepetition3 =
       Some (Inr \<lparr>ciWidth = 1024, ciHeight = 1024, BlocksAcross = 128, BlocksDown = 128,
                   ciCapacityBits = 16384, MaxPayloadBytes = 666, MaxUTF8Chars = 444\<rparr>)"
    by (simp add: GetCapacityInfoFromData_Repetition3)
  have "CapacityBits (Width yPlane) (Height yPlane) = (Width yPlane div 8) * (Height yPlane div 8)"
    by (simp add: CapacityBits_def)
  then show ?thesis
    using GetCapacityInfoFromData_Repetition3 [of yPlane] e c by blast
qed

theorem capacity_arithmetic_witness:
  "GetCapacityInfoFromData \<lparr>Pix = [], Width = 256, Height = 260, Stride = 256\<rparr>
     ECCSchemeRepetition3 =
   Some (Inr \<lparr>ciWidth = 256, ciHeight = 260, BlocksAcross = 32, BlocksDown = 32,
               ciCapacityBits = 1024, MaxPayloadBytes = 26, MaxUTF8Chars = 17\<rparr>)
   \<and> GetCapacityInfoFromData \<lparr>Pix = [], Width = 16, Height = 16, Stride = 16\<rparr>
     ECCSchemeRepetition3 =
   Some (Inr \<lparr>ciWidth = 16, ciHeight = 16, BlocksAcross = 2, BlocksDown = 2,
               ciCapacityBits = 4, MaxPayloadBytes = 0, MaxUTF8Chars = 0\<rparr>)"
proof -
  have "\<lfloor>real_of_int 26 / 1.5\<rfloor> = (17 :: int)"
    by (simp add: floor_two_thirds)
  then have "GetCapacityInfoFromData \<lparr>Pix = [], Width = 256, Height = 260, Stride = 256\<rparr>
     ECCSchemeRepetition3 =
   Some (Inr \<lparr>ciWidth = 256, ciHeight = 260, BlocksAcross = 32, BlocksDown = 32,
               ciCapacityBits = 1024, MaxPayloadBytes = 26, MaxUTF8Chars = 17\<rparr>)"
    using capacity_arithmetic [of "\<lparr>Pix = [], Width = 256, Height = 260, Stride = 256\<rparr>"]
    by simp
  moreover have "GetCapacityInfoFromData \<lparr>Pix = [], Width = 16, Height = 16, Stride = 16\<rparr>
     ECCSchemeRepetition3 =
   Some (Inr \<lparr>ciWidth = 16, ciHeight = 16, BlocksAcross = 2, BlocksDown = 2,
               ciCapacityBits = 4, MaxPayloadBytes = 0, MaxUTF8Chars = 0\<rparr>)"
    using capacity_arithmetic [of "\<lparr>Pix = [], Width = 16, Height = 16, Stride = 16\<rparr>"]
    by simp
  ultimately show ?thesis by blast
qed

section \<open>Verification: block transform\<close>

text \<open>A summation loop is a finite sum.\<close>

lemma fold_add_sum:
  "fold (\<lambda>i (s::real). s + g i) [0..<n] a = a + (\<Sum>i = 0..<n. g i)"
  by (induction n) simp_all

text \<open>Two nested loops that assign \<open>a[g i j] = h i j\<close> at pairwise distinct positions.\<close>

lemma fold2_update_length [simp]:
  "length (fold (\<lambda>i a. fold (\<lambda>j a. a[g i j := h i j]) ys a) xs a) = length a"
  by (simp add: fold_nested_product case_prod_unfold)

lemma fold2_update_nth:
  assumes "distinct (map (\<lambda>(i, j). g i j) (List.product xs ys))"
    and "i \<in> set xs" "j \<in> set ys" "g i j < length a"
  shows "fold (\<lambda>i a. fold (\<lambda>j a. a[g i j := h i j]) ys a) xs a ! (g i j) = h i j"
proof -
  have "fold (\<lambda>p a. a[(\<lambda>(i, j). g i j) p := (\<lambda>(i, j). h i j) p]) (List.product xs ys) a
          ! ((\<lambda>(i, j). g i j) (i, j)) = (\<lambda>(i, j). h i j) (i, j)"
    using assms by (intro fold_update_nth) simp_all
  then show ?thesis
    by (simp add: fold_nested_product case_prod_unfold)
qed

lemma distinct_idx8_swap:
  "distinct (map (\<lambda>(c, r). r * 8 + c) (List.product [0..<8] [0..<8]))"
proof -
  have "inj_on (\<lambda>(c, r). r * 8 + c) ({0..<8} \<times> {0..<8::nat})"
  proof (rule inj_onI)
    fix p q :: "nat \<times> nat"
    assume p: "p \<in> {0..<8} \<times> {0..<8}" and q: "q \<in> {0..<8} \<times> {0..<8}"
      and eq: "(case p of (c, r) \<Rightarrow> r * 8 + c) = (case q of (c, r) \<Rightarrow> r * 8 + c)"
    obtain c r where pq: "p = (c, r)" by (cases p)
    obtain c' r' where qq: "q = (c', r')" by (cases q)
    from p q eq pq qq have "c < 8" "c' < 8" "r * 8 + c = r' * 8 + c'" by auto
    then have "c = c' \<and> r = r'" by arith
    with pq qq show "p = q" by simp
  qed
  then show ?thesis by (simp add: distinct_map distinct_product)
qed

lemma norm_c_eq: "norm_c k = spec_C k"
  by (simp add: norm_c_def spec_C_def)

text \<open>The row pass and the column pass of \<open>DCT8x8\<close>, entry by entry.\<close>

lemma DCT8x8_nth:
  assumes "length dst = 64" "u < 8" "v < 8"
  shows "DCT8x8 src dst ! (u * 8 + v)
         = norm_c u * (\<Sum>row = 0..<8.
             (norm_c v * (\<Sum>col = 0..<8. src ! (row * 8 + col) * cosTable col v))
               * cosTable row u)"
proof -
  define temp where "temp =
    fold (\<lambda>row temp.
      fold (\<lambda>freq temp.
        temp[row * 8 + freq :=
          norm_c freq * (\<Sum>col = 0..<8. src ! (row * 8 + col) * cosTable col freq)])
        [0..<8] temp)
      [0..<8] (replicate 64 (0::real))"
  have t: "temp ! (row * 8 + freq)
             = norm_c freq * (\<Sum>col = 0..<8. src ! (row * 8 + col) * cosTable col freq)"
    if "row < 8" "freq < 8" for row freq
    unfolding temp_def
    by (rule fold2_update_nth [where g = "\<lambda>row freq. row * 8 + freq"])
       (use that distinct_idx8 [of 8] in simp_all)
  have d: "DCT8x8 src dst =
    fold (\<lambda>colFreq dst.
      fold (\<lambda>rowFreq dst.
        dst[rowFreq * 8 + colFreq :=
          norm_c rowFreq * (\<Sum>row = 0..<8. temp ! (row * 8 + colFreq) * cosTable row rowFreq)])
        [0..<8] dst)
      [0..<8] dst"
    by (simp add: DCT8x8_def Let_def fold_add_sum temp_def)
  have "DCT8x8 src dst ! (u * 8 + v)
          = norm_c u * (\<Sum>row = 0..<8. temp ! (row * 8 + v) * cosTable row u)"
    unfolding d
    by (rule fold2_update_nth [where g = "\<lambda>colFreq rowFreq. rowFreq * 8 + colFreq"])
       (use assms distinct_idx8_swap in simp_all)
  moreover have "(\<Sum>row = 0..<8. temp ! (row * 8 + v) * cosTable row u)
      = (\<Sum>row = 0..<8.
           (norm_c v * (\<Sum>col = 0..<8. src ! (row * 8 + col) * cosTable col v))
             * cosTable row u)"
    by (rule sum.cong) (simp_all add: t assms(3))
  ultimately show ?thesis
    by simp
qed

lemma length_DCT8x8: "length (DCT8x8 src dst) = length dst"
  by (simp add: DCT8x8_def Let_def)

lemma DCT8x8_spec:
  assumes "length dst = 64" "u < 8" "v < 8"
  shows "DCT8x8 src dst ! (u * 8 + v) = spec_DCT (\<lambda>row col. src ! (row * 8 + col)) u v"
proof -
  have "norm_c u * (\<Sum>row = 0..<8.
             (norm_c v * (\<Sum>col = 0..<8. src ! (row * 8 + col) * cosTable col v))
               * cosTable row u)
        = spec_C u * spec_C v *
            (\<Sum>row = 0..<8. \<Sum>col = 0..<8.
               src ! (row * 8 + col) * cosTable row u * cosTable col v)"
    by (simp add: norm_c_eq sum_distrib_left sum_distrib_right mult_ac)
  also have "\<dots> = spec_DCT (\<lambda>row col. src ! (row * 8 + col)) u v"
    by (simp add: spec_DCT_def cosTable_def)
  finally show ?thesis
    using DCT8x8_nth [OF assms] by simp
qed

text \<open>
  Claim C8. For every 8 by 8 block \<open>src\<close> (an array of 64 reals, row-major) and every
  output array \<open>dst\<close>, the two-pass \<open>DCT8x8\<close> leaves in \<open>dst[u*8 + v]\<close>, for all
  frequencies \<open>u, v < 8\<close>, exactly the double sum
  \<open>C(u) * C(v) * sum over row, col of x[row,col] * cos((2*row+1)*u*pi/16) *
  cos((2*col+1)*v*pi/16)\<close> with \<open>C(0) = sqrt(1/8)\<close> and \<open>C(k>0) = sqrt(2/8)\<close>, over the
  reals.
\<close>

theorem DCT8x8_reference_formula:
  assumes "length src = 64" "length dst = 64" "u < 8" "v < 8"
  shows "DCT8x8 src dst ! (u * 8 + v) = spec_DCT (\<lambda>row col. src ! (row * 8 + col)) u v
         \<and> length (DCT8x8 src dst) = 64
         \<and> spec_C 0 = sqrt (1 / 8) \<and> (\<forall>k > 0. spec_C k = sqrt (2 / 8))"
  using DCT8x8_spec [OF assms(2-4)] assms(2) by (simp add: length_DCT8x8 spec_C_def)

theorem DCT8x8_reference_formula_witness:
  "length (replicate 64 (1 :: real)) = 64 \<and> length (replicate 64 (0 :: real)) = 64
   \<and> (0 :: nat) < 8
   \<and> DCT8x8 (replicate 64 1) (replicate 64 0) ! (0 * 8 + 0) = 8"
proof -
  have "(\<Sum>row = 0..<8. \<Sum>col = 0..<8.
           replicate 64 (1 :: real) ! (row * 8 + col)
             * cos (real (2 * row + 1) * real (0 :: nat) * pi / 16)
             * cos (real (2 * col + 1) * real (0 :: nat) * pi / 16))
        = (\<Sum>row = 0..<8 :: nat. \<Sum>col = 0..<8 :: nat. 1)"
    by (intro sum.cong refl) simp
  then have s: "spec_DCT (\<lambda>row col. replicate 64 (1 :: real) ! (row * 8 + col)) 0 0 = 8"
    by (simp add: spec_DCT_def spec_C_def)
  have l: "length (replicate 64 (1 :: real)) = 64" "length (replicate 64 (0 :: real)) = 64"
    and z: "(0 :: nat) < 8"
    by simp_all
  from DCT8x8_reference_formula [OF l z z] s l z show ?thesis
    by simp
qed

section \<open>Verification: embedding engine\<close>

lemma length_BuildFrame:
  "BuildFrame m s = Inr frame \<Longrightarrow> length frame = 16 + length m"
  by (auto simp: BuildFrame_eq Magic_bytes)

text \<open>
  Claim C4. With the repetition-3 scheme configured (nil options configure it), a
  message \<open>m\<close> whose encoded frame of \<open>(16 + len(m)) * 8 * 3\<close> bits exceeds
  \<open>(w/8) * (h/8)\<close> makes \<open>EmbedMessageDCT\<close> fail with \<open>ErrMessageTooLong\<close>, and the
  luminance plane is then exactly the plane it was given: no sample has been written.
\<close>

theorem capacity_enforced_before_mutation:
  assumes "opts = None \<or> (\<exists>given. opts = Some given \<and> ECC (Config given) = ECCSchemeRepetition3)"
    and "(16 + length m) * 8 * 3 > (Width yPlane div 8) * (Height yPlane div 8)"
  shows "EmbedMessageDCT yPlane m opts = Some (Inl ErrMessageTooLong, yPlane)"
proof -
  define cfg where "cfg = Config (case opts of None \<Rightarrow> DefaultEmbedOptions | Some given \<Rightarrow> given)"
  have ecc: "ECC cfg = ECCSchemeRepetition3"
    using assms(1) by (auto simp: cfg_def DefaultEmbedOptions_def DefaultDCTConfig_def)
  obtain frame where frame: "BuildFrame m (ECC cfg) = Inr frame"
    by (simp add: BuildFrame_eq)
  obtain bits where bits: "EncodeFrame frame = Inr bits"
    by (simp add: EncodeFrame_eq)
  have "length bits = 24 * (16 + length m)"
    using length_EncodeFrame [OF bits] length_BuildFrame [OF frame] by simp
  then have "length bits > CapacityBits (Width yPlane) (Height yPlane)"
    using assms(2) by (simp add: CapacityBits_def)
  then show ?thesis
    using frame bits ecc
    by (simp add: EmbedMessageDCT_def cfg_def [symmetric] GetScheme_def)
qed

theorem capacity_enforced_before_mutation_witness:
  "(Some DefaultEmbedOptions = None
      \<or> (\<exists>given. Some DefaultEmbedOptions = Some given \<and> ECC (Config given) = ECCSchemeRepetition3))
   \<and> (16 + length (replicate 100 (0 :: byte))) * 8 * 3 > (16 div 8) * ((16 :: nat) div 8)
   \<and> EmbedMessageDCT \<lparr>Pix = replicate 256 128, Width = 16, Height = 16, Stride = 16\<rparr>
         (replicate 100 0) (Some DefaultEmbedOptions)
       = Some (Inl ErrMessageTooLong,
               \<lparr>Pix = replicate 256 128, Width = 16, Height = 16, Stride = 16\<rparr>)"
proof -
  have o: "Some DefaultEmbedOptions = None
      \<or> (\<exists>given. Some DefaultEmbedOptions = Some given \<and> ECC (Config given) = ECCSchemeRepetition3)"
    by (simp add: DefaultEmbedOptions_def DefaultDCTConfig_def)
  have c: "(16 + length (replicate 100 (0 :: byte))) * 8 * 3
             > (Width \<lparr>Pix = replicate 256 128, Width = 16, Height = 16, Stride = 16\<rparr> div 8)
               * (Height \<lparr>Pix = replicate 256 128, Width = 16, Height = 16, Stride = 16\<rparr> div 8)"
    by simp
  from capacity_enforced_before_mutation [OF o c] o show ?thesis
    by simp
qed

section \<open>Verification: extraction protocol\<close>

text \<open>
  The payload length \<open>ExtractMessageDCT\<close> reads from the decoded header probe is the
  big-endian number in bytes 8 to 11.
\<close>

lemma probe_length:
  fixes fb :: "byte list"
  shows "unat (push_bit 24 (ucast (fb ! 8)) OR push_bit 16 (ucast (fb ! 9))
               OR push_bit 8 (ucast (fb ! 10)) OR ucast (fb ! 11) :: uint32)
         = be_uint32 fb 8"
proof -
  have "(push_bit 24 (ucast (fb ! 8)) OR push_bit 16 (ucast (fb ! 9))
               OR push_bit 8 (ucast (fb ! 10)) OR ucast (fb ! 11) :: uint32)
        = Uint32 [fb ! 8, fb ! 9, fb ! 10, fb ! 11]"
    by (simp add: Uint32_def ac_simps)
  then show ?thesis
    by (simp only: unat_Uint32 be_uint32_def) simp
qed

text \<open>
  Claim C10. When the header probe of \<open>ExtractMessageDCT\<close> (the first
  \<open>min(384, capacity)\<close> bits, repetition-decoded) yields at least 16 bytes that start with
  the magic, and the big-endian number in bytes 8 to 11 exceeds 1000000, the operation
  fails with the invalid-payload-length error carrying that number. Nothing is assumed
  about the capacity of the plane or about any further extraction, so the failure stands
  even where the capacity would hold the frame, and it is decided before the full frame
  is extracted.
\<close>

theorem extract_payload_length_cap:
  assumes "extractBitsFromDCT yPlane (min 384 (CapacityBits (Width yPlane) (Height yPlane)))
             = Some extractedBits"
    and "DecodeFrame extractedBits = Inr frameBytes"
    and "16 \<le> length frameBytes"
    and "take 4 frameBytes = map of_char ''EMG0''"
    and "be_uint32 frameBytes 8 > 1000000"
  shows "ExtractMessageDCT yPlane
         = Some (Inl (ExtractErrInvalidPayloadLength (of_nat (be_uint32 frameBytes 8))))"
proof -
  let ?len = "push_bit 24 (ucast (frameBytes ! 8)) OR push_bit 16 (ucast (frameBytes ! 9))
               OR push_bit 8 (ucast (frameBytes ! 10)) OR ucast (frameBytes ! 11) :: uint32"
  have u: "unat ?len = be_uint32 frameBytes 8"
    by (rule probe_length)
  then have big: "?len > 1000000"
    using assms(5) by (simp add: word_less_nat_alt)
  have val: "?len = of_nat (be_uint32 frameBytes 8)"
    by (simp add: u [symmetric])
  have frame: "extract_frame yPlane Repetition3 (CapacityBits (Width yPlane) (Height yPlane)) frameBytes
         = Some (Inl (ExtractErrInvalidPayloadLength (of_nat (be_uint32 frameBytes 8))))"
    using big by (simp only: extract_frame_def Let_def val if_True)
  have after: "extract_after_probe yPlane Repetition3 (CapacityBits (Width yPlane) (Height yPlane))
          frameBytes
         = Some (Inl (ExtractErrInvalidPayloadLength (of_nat (be_uint32 frameBytes 8))))"
    using assms(3,4) frame
    by (simp add: extract_after_probe_def HeaderSize_def subslice_def Magic_def)
  have "ExtractMessageDCT yPlane =
          (case extractBitsFromDCT yPlane (min 384 (CapacityBits (Width yPlane) (Height yPlane))) of
             None \<Rightarrow> None
           | Some bits \<Rightarrow>
               (case DecodeFrame bits of
                  Inl err \<Rightarrow> Some (Inl (ExtractErrDecodeHeader err))
                | Inr fb \<Rightarrow>
                    extract_after_probe yPlane Repetition3
                      (CapacityBits (Width yPlane) (Height yPlane)) fb))"
    by (simp add: ExtractMessageDCT_def GetScheme_def Let_def HeaderSize_def min_def
        split: option.splits sum.splits)
  then show ?thesis
    using assms(1,2) after by simp
qed

subsection \<open>Extraction from the synthetic plane\<close>

lemma length_impulse_block [simp]: "length (impulse_block b) = 64"
  by (simp add: impulse_block_def)

lemma length_concat_impulse: "length (concat (map impulse_block bs)) = 64 * length bs"
  by (induction bs) simp_all

lemma nth_concat_impulse:
  "k < length bs \<Longrightarrow> i < 64 \<Longrightarrow>
   concat (map impulse_block bs) ! (k * 64 + i) = impulse_block (bs ! k) ! i"
proof (induction bs arbitrary: k)
  case Nil
  then show ?case by simp
next
  case (Cons b bs)
  show ?case
  proof (cases k)
    case 0
    with Cons.prems show ?thesis by (simp add: nth_append)
  next
    case (Suc j)
    with Cons.prems have "j < length bs" by simp
    then have "concat (map impulse_block bs) ! (j * 64 + i) = impulse_block (bs ! j) ! i"
      using Cons.prems(2) by (rule Cons.IH)
    then show ?thesis using Suc by (simp add: nth_append)
  qed
qed

lemma probe_plane_sample:
  assumes "k < length bs" "i < 64"
  shows "Pix (probe_plane bs n) ! (k * 64 + i) = impulse_block (bs ! k) ! i"
    and "k * 64 + i < length (Pix (probe_plane bs n))"
proof -
  have "k * 64 + i < 64 * length bs"
    using assms by simp
  then show "Pix (probe_plane bs n) ! (k * 64 + i) = impulse_block (bs ! k) ! i"
    and "k * 64 + i < length (Pix (probe_plane bs n))"
    using assms by (simp_all add: probe_plane_def nth_append length_concat_impulse nth_concat_impulse)
qed

lemma idx64: "(k * 8 + y) * 8 + (0 * 8 + x) = k * 64 + (y * 8 + x)" for k y x :: nat
  by simp

lemma probe_block_in_range:
  assumes "k < length bs"
  shows "block_in_range (Pix (probe_plane bs n)) 8 k 0"
proof -
  have "(k * 8 + i div 8) * 8 + (0 * 8 + i mod 8) < length (Pix (probe_plane bs n))"
    if "i < 64" for i
  proof -
    have "(k * 8 + i div 8) * 8 + (0 * 8 + i mod 8) = k * 64 + i"
      by simp
    then show ?thesis
      using probe_plane_sample(2) [OF assms that, of n] by simp
  qed
  then show ?thesis
    by (simp add: block_in_range_def list_all_iff)
qed

lemma length_load_block [simp]: "length (load_block pix stride by bx block) = length block"
  by (simp add: load_block_def Let_def)

lemma probe_load_block:
  assumes "k < length bs" "length block = 64" "y < 8" "x < 8"
  shows "load_block (Pix (probe_plane bs n)) 8 k 0 block ! (y * 8 + x)
         = impulse_block (bs ! k) ! (y * 8 + x) - 128"
proof -
  have "load_block (Pix (probe_plane bs n)) 8 k 0 block ! (y * 8 + x)
        = Pix (probe_plane bs n) ! ((k * 8 + y) * 8 + (0 * 8 + x)) - 128.0"
    unfolding load_block_def Let_def
    by (rule fold2_update_nth [where g = "\<lambda>y x. y * 8 + x"])
       (use assms distinct_idx8 [of 8] in simp_all)
  also have "(k * 8 + y) * 8 + (0 * 8 + x) = k * 64 + (y * 8 + x)"
    by (rule idx64)
  finally show ?thesis
    using probe_plane_sample(1) [OF assms(1), of "y * 8 + x" n] assms(3,4) by simp
qed

text \<open>The transform of a block that is zero except for its top-left sample \<open>a\<close>.\<close>

lemma spec_DCT_impulse:
  assumes "x 0 0 = a"
    and "\<And>row col. row < 8 \<Longrightarrow> col < 8 \<Longrightarrow> (row, col) \<noteq> (0, 0) \<Longrightarrow> x row col = 0"
  shows "spec_DCT x u v = spec_C u * spec_C v * (a * cos (real u * pi / 16) * cos (real v * pi / 16))"
proof -
  let ?t = "\<lambda>row col. x row col * cos (real (2 * row + 1) * real u * pi / 16)
                                 * cos (real (2 * col + 1) * real v * pi / 16)"
  have rest_rows: "(\<Sum>row = Suc 0..<8. \<Sum>col = 0..<8. ?t row col) = 0"
    by (intro sum.neutral ballI) (simp add: assms(2))
  have rest_cols: "(\<Sum>col = Suc 0..<8. ?t 0 col) = 0"
    by (intro sum.neutral ballI) (simp add: assms(2))
  have "(\<Sum>row = 0..<8. \<Sum>col = 0..<8. ?t row col)
        = (\<Sum>col = 0..<8. ?t 0 col) + (\<Sum>row = Suc 0..<8. \<Sum>col = 0..<8. ?t row col)"
    by (rule sum.atLeast_Suc_lessThan) simp
  also have "(\<Sum>col = 0..<8. ?t 0 col) = ?t 0 0 + (\<Sum>col = Suc 0..<8. ?t 0 col)"
    by (rule sum.atLeast_Suc_lessThan) simp
  finally have "(\<Sum>row = 0..<8. \<Sum>col = 0..<8. ?t row col) = ?t 0 0"
    by (simp only: rest_rows rest_cols)
  then show ?thesis
    by (simp add: spec_DCT_def assms(1))
qed

lemma cos_2_gt_cos_3: "cos (2 * pi / 16) > cos (3 * pi / 16)" and cos_2_pos: "cos (2 * pi / 16) > 0"
proof -
  show "cos (2 * pi / 16) > cos (3 * pi / 16)"
    by (rule cos_monotone_0_pi) (use pi_gt_zero in simp_all)
  show "cos (2 * pi / 16) > 0"
    by (rule cos_gt_zero_pi) (use pi_gt_zero in simp_all)
qed

lemma probe_extract_bit:
  assumes "k < length bs" "length block = 64" "length dctBlock = 64"
  shows "extract_bit (DCT8x8 (load_block (Pix (probe_plane bs n)) 8 k 0 block) dctBlock) = bs ! k"
proof -
  define a :: real where "a = (if bs ! k then 127 else 0)"
  let ?blk = "load_block (Pix (probe_plane bs n)) 8 k 0 block"
  let ?x = "\<lambda>row col. ?blk ! (row * 8 + col)"
  have x00: "?x 0 0 = a"
    using probe_load_block [OF assms(1,2), of 0 0 n] by (simp add: impulse_block_def a_def)
  have xz: "?x row col = 0" if "row < 8" "col < 8" "(row, col) \<noteq> (0, 0)" for row col
  proof -
    have "row * 8 + col \<noteq> 0" using that(3) by simp
    then obtain j where j: "row * 8 + col = Suc j" by (cases "row * 8 + col") simp_all
    have "j < 63" using that(1,2) j by simp
    then show ?thesis
      using probe_load_block [OF assms(1,2) that(1,2), of n] j by (simp add: impulse_block_def)
  qed
  have c: "DCT8x8 ?blk dctBlock ! (2 * 8 + v)
           = spec_C 2 * spec_C v * (a * cos (real 2 * pi / 16) * cos (real v * pi / 16))"
    if "v < 8" for v
    using DCT8x8_spec [OF assms(3), of 2 v ?blk] that spec_DCT_impulse [of ?x a 2 v, OF x00 xz]
    by simp
  have c22: "DCT8x8 ?blk dctBlock ! 18
             = sqrt (2 / 8) * sqrt (2 / 8) * (a * cos (2 * pi / 16) * cos (2 * pi / 16))"
    using c [of 2] by (simp add: spec_C_def)
  have c23: "DCT8x8 ?blk dctBlock ! 19
             = sqrt (2 / 8) * sqrt (2 / 8) * (a * cos (2 * pi / 16) * cos (3 * pi / 16))"
    using c [of 3] by (simp add: spec_C_def)
  have s: "sqrt (2 / 8) * sqrt (2 / 8) = (1 / 4 :: real)"
    by simp
  show ?thesis
  proof (cases "bs ! k")
    case False
    then show ?thesis
      by (simp add: extract_bit_def Let_def c22 c23 a_def)
  next
    case True
    have "a * cos (2 * pi / 16) * cos (2 * pi / 16) > a * cos (2 * pi / 16) * cos (3 * pi / 16)"
      using True cos_2_gt_cos_3 cos_2_pos by (simp add: a_def)
    then have "DCT8x8 ?blk dctBlock ! 18 > DCT8x8 ?blk dctBlock ! 19"
      unfolding c22 c23 s by simp
    then show ?thesis
      using True by (simp add: extract_bit_def Let_def)
  qed
qed

lemma probe_extract_cols:
  assumes "k < length bs" "length bits < maxBits" "length block = 64" "length dctBlock = 64"
  shows "\<exists>block' dctBlock'.
           extract_cols (probe_plane bs n) maxBits k [0..<Width (probe_plane bs n) div 8]
             (bits, block, dctBlock) = Some (bits @ [bs ! k], block', dctBlock')
           \<and> length block' = 64 \<and> length dctBlock' = 64"
proof -
  have w: "[0..<Width (probe_plane bs n) div 8] = [0]"
    by (simp add: probe_plane_def)
  have s: "Stride (probe_plane bs n) = 8"
    by (simp add: probe_plane_def)
  show ?thesis
    using assms probe_block_in_range [OF assms(1), of n] probe_extract_bit [OF assms(1,3,4), of n]
    by (simp add: w s Let_def length_DCT8x8)
qed

lemma probe_extract_rows:
  assumes "maxBits \<le> length bs" "length bs \<le> n"
  shows "length bits = j \<Longrightarrow> j \<le> maxBits \<Longrightarrow> length block = 64 \<Longrightarrow> length dctBlock = 64 \<Longrightarrow>
         \<exists>block' dctBlock'.
           extract_rows (probe_plane bs n) maxBits [j..<n] (bits, block, dctBlock)
             = Some (bits @ map (nth bs) [j..<maxBits], block', dctBlock')"
proof (induction "maxBits - j" arbitrary: j bits block dctBlock)
  case 0
  then have jm: "j = maxBits" by simp
  show ?case
  proof (cases "j < n")
    case True
    then have "[j..<n] = j # [Suc j..<n]" by (simp add: upt_conv_Cons)
    then show ?thesis using 0 jm by simp
  next
    case False
    then have e: "[j..<n] = []" by simp
    show ?thesis unfolding e using jm by simp
  qed
next
  case (Suc d)
  then have j: "j < maxBits" by simp
  then have jn: "j < n" and jb: "j < length bs" using assms by simp_all
  have rows: "[j..<n] = j # [Suc j..<n]"
    using jn by (simp add: upt_conv_Cons)
  obtain block' dctBlock' where
    cols: "extract_cols (probe_plane bs n) maxBits j [0..<Width (probe_plane bs n) div 8]
             (bits, block, dctBlock) = Some (bits @ [bs ! j], block', dctBlock')"
    and l: "length block' = 64" "length dctBlock' = 64"
    using probe_extract_cols [OF jb, of bits maxBits block dctBlock n] Suc.prems j by auto
  have "\<exists>block'' dctBlock''.
           extract_rows (probe_plane bs n) maxBits [Suc j..<n] (bits @ [bs ! j], block', dctBlock')
             = Some ((bits @ [bs ! j]) @ map (nth bs) [Suc j..<maxBits], block'', dctBlock'')"
    using Suc.hyps(2) Suc.prems j l by (intro Suc.hyps(1)) simp_all
  moreover have "[j..<maxBits] = j # [Suc j..<maxBits]"
    using j by (simp add: upt_conv_Cons)
  ultimately show ?case
    using Suc.prems(1) j cols by (simp add: rows)
qed

lemma probe_extractBitsFromDCT:
  assumes "length bs \<le> n"
  shows "extractBitsFromDCT (probe_plane bs n) (length bs) = Some bs"
proof -
  have h: "Height (probe_plane bs n) div 8 = n"
    by (simp add: probe_plane_def)
  obtain block' dctBlock' where
    "extract_rows (probe_plane bs n) (length bs) [0..<n] ([], replicate 64 0, replicate 64 0)
       = Some ([] @ map (nth bs) [0..<length bs], block', dctBlock')"
    using probe_extract_rows [OF order_refl assms, of "[]" 0 "replicate 64 0" "replicate 64 0"]
    by auto
  then show ?thesis
    by (simp add: extractBitsFromDCT_def h map_nth)
qed

theorem extract_payload_length_cap_witness:
  "extractBitsFromDCT
     (probe_plane (concat (map (\<lambda>b. [b, b, b])
        (BytesToBits [0x45, 0x4D, 0x47, 0x30, 1, 1, 0, 0, 0x00, 0x0F, 0x42, 0x41, 0, 0, 0, 0])))
        24000408)
     (min 384 (CapacityBits 8 (8 * 24000408)))
     = Some (concat (map (\<lambda>b. [b, b, b])
        (BytesToBits [0x45, 0x4D, 0x47, 0x30, 1, 1, 0, 0, 0x00, 0x0F, 0x42, 0x41, 0, 0, 0, 0])))
   \<and> DecodeFrame (concat (map (\<lambda>b. [b, b, b])
        (BytesToBits [0x45, 0x4D, 0x47, 0x30, 1, 1, 0, 0, 0x00, 0x0F, 0x42, 0x41, 0, 0, 0, 0])))
     = Inr [0x45, 0x4D, 0x47, 0x30, 1, 1, 0, 0, 0x00, 0x0F, 0x42, 0x41, 0, 0, 0, 0]
   \<and> be_uint32 [0x45, 0x4D, 0x47, 0x30, 1, 1, 0, 0, 0x00, 0x0F, 0x42, 0x41, 0, 0, 0, 0] 8 = 1000001
   \<and> (16 + 1000001) * 8 * 3 \<le> CapacityBits 8 (8 * 24000408)
   \<and> ExtractMessageDCT
       (probe_plane (concat (map (\<lambda>b. [b, b, b])
          (BytesToBits [0x45, 0x4D, 0x47, 0x30, 1, 1, 0, 0, 0x00, 0x0F, 0x42, 0x41, 0, 0, 0, 0])))
          24000408)
     = Some (Inl (ExtractErrInvalidPayloadLength 1000001))"
proof -
  define hdr :: "byte list"
    where "hdr = [0x45, 0x4D, 0x47, 0x30, 1, 1, 0, 0, 0x00, 0x0F, 0x42, 0x41, 0, 0, 0, 0]"
  define bs where "bs = concat (map (\<lambda>b. [b, b, b]) (BytesToBits hdr))"
  define P where "P = probe_plane bs 24000408"
  have enc: "EncodeFrame hdr = Inr bs"
    by (simp add: EncodeFrame_eq bs_def)
  have ne: "hdr \<noteq> []"
    by (simp add: hdr_def)
  have len: "length bs = 384"
    using DecodeFrame_EncodeFrame_flip(1) [OF ne enc] by (simp add: hdr_def)
  have dec: "DecodeFrame bs = Inr hdr"
    by (rule DecodeFrame_EncodeFrame_flip(2) [OF ne enc])
  have cap: "CapacityBits (Width P) (Height P) = 24000408"
    by (simp add: P_def probe_plane_def CapacityBits_def)
  have cap': "CapacityBits 8 (8 * 24000408) = 24000408"
    by (simp add: CapacityBits_def)
  have "extractBitsFromDCT P (length bs) = Some bs"
    unfolding P_def by (rule probe_extractBitsFromDCT) (simp add: len)
  then have probe: "extractBitsFromDCT P (min 384 (CapacityBits (Width P) (Height P))) = Some bs"
    by (simp add: len cap)
  have l16: "16 \<le> length hdr" and magic: "take 4 hdr = map of_char ''EMG0''"
    by (simp_all add: hdr_def)
  have be: "be_uint32 hdr 8 = 1000001"
    by (simp add: be_uint32_def hdr_def)
  have big: "be_uint32 hdr 8 > 1000000"
    by (simp add: be)
  have "ExtractMessageDCT P = Some (Inl (ExtractErrInvalidPayloadLength (of_nat (be_uint32 hdr 8))))"
    by (rule extract_payload_length_cap [OF probe dec l16 magic big])
  then have "ExtractMessageDCT P = Some (Inl (ExtractErrInvalidPayloadLength 1000001))"
    by (simp add: be)
  then show ?thesis
    using probe dec be cap cap' unfolding P_def bs_def hdr_def by simp
qed

section \<open>Verification: binary64 rounding\<close>








lemma round64_0 [simp]: "round64 0 = 0"
  by (simp add: round64_def)










section \<open>Verification: coefficient bit rule\<close>


subsection \<open>Where the blocks lie\<close>









subsection \<open>The loop body, step by step\<close>









text \<open>The write-back loop changes the 64 samples of its block and nothing else.\<close>

lemma length_store_block [simp]: "length (store_block pix stride by bx block) = length pix"
  by (simp add: store_block_def Let_def)




subsection \<open>The block loop of \<open>embedBitsIntoDCT\<close>\<close>









subsection \<open>The block loop of \<open>extractBitsFromDCT\<close>\<close>




subsection \<open>The coefficient mutation\<close>

lemma length_embed_coeffs [simp]: "length (embed_coeffs config b d) = length d"
  by (simp add: embed_coeffs_def Let_def)






subsection \<open>The mid-grey block\<close>









subsection \<open>Some binary64 values\<close>













subsection \<open>The coefficient bit rule\<close>







end
